theory Spec2Isabelle
  imports Main
begin

section \<open>The binary min heap of \<open>truthy_measure/heap.pyx\<close>\<close>

text \<open>
  The source is a Cython module with two classes: \<open>BinaryHeap\<close>, a tournament tree stored
  level by level in one flat buffer, and its subclass \<open>FastUpdateBinaryHeap\<close>, which adds a
  table of cross references from a bounded integer reference to the leaf that holds it.

  Conventions of the embedding.
  \<^item> A C \<open>int\<close> that can be negative (an index, \<open>count\<close>, a reference, an entry of the cross
    reference table) is an \<open>int\<close>; overflow of the 32 bit range is not modelled. The
    \<open>int\<close> arguments of the methods are the C values: the conversion of a Python integer
    that Cython performs before the body of a \<open>def\<close> method runs, and the \<open>OverflowError\<close> it
    raises outside the range of a C \<open>int\<close>, are not part of the model. The
    number of levels only counts up from zero and is decreased under the guard
    \<open>levels > min_levels\<close>, so it is a \<open>nat\<close>, and \<open>1 << levels\<close> is \<open>2 ^ levels\<close>.
  \<^item> A malloc'ed buffer is a list. \<open>p[i]\<close> is \<open>rd p i\<close> and \<open>p[i] = v\<close> is \<open>wr p i v\<close>.
    An access outside the buffer is undefined behaviour in C; \<open>rd\<close> then yields an
    unspecified value and \<open>wr\<close> writes nothing. The invariants below keep every access
    inside its buffer.
  \<^item> A \<open>cdef\<close> method is a function from the object to its result and the object after
    the call. A \<open>def\<close> method that can raise returns \<open>Inl\<close> of the exception or \<open>Inr\<close>
    of its result, together with the object after the call.
  \<^item> The fields \<open>_values\<close>, \<open>_references\<close>, \<open>_popped_ref\<close>, \<open>_crossref\<close>, \<open>_pushed\<close> and
    \<open>_invalid_ref\<close> are \<open>vals\<close>, \<open>references\<close>, \<open>popped_ref\<close>, \<open>crossref\<close>, \<open>pushed\<close> and
    \<open>invalid_ref\<close>.
  \<^item> A method that a subclass overrides and that the base class calls through \<open>self\<close>
    (\<open>_remove\<close> in \<open>pop_fast\<close>, \<open>reset\<close> in \<open>__init__\<close>) is a parameter of the caller.
\<close>

subsection \<open>Values\<close>

text \<open>
  Modelled from the spec: \<open>VALUE_T\<close> and \<open>REFERENCE_T\<close> are declared in \<open>heap.pxd\<close>, which is
  not among the sources. The spec asks for "an ordered numeric key" with the sentinel
  \<open>+\<infinity>\<close> for empty slots, the methods take a \<open>double value\<close> and the sentinel \<open>inf\<close> is
  the \<open>double\<close> \<open>Py_HUGE_VAL\<close>: \<open>VALUE_T\<close> is \<open>double\<close>. Of the doubles the model has the
  integers (of any size) and the two infinities, linearly ordered with \<open>NInf\<close> at the
  bottom and \<open>PInf\<close>, the constant \<open>inf\<close> of the source, on top. Fractions and NaN are
  outside the model. A reference is an \<open>int\<close>.
\<close>

datatype val = NInf | Fin int | PInf

instantiation val :: linorder
begin

fun less_eq_val :: "val \<Rightarrow> val \<Rightarrow> bool" where
  "less_eq_val NInf NInf = True"
| "less_eq_val NInf (Fin b) = True"
| "less_eq_val NInf PInf = True"
| "less_eq_val (Fin a) NInf = False"
| "less_eq_val (Fin a) (Fin b) = (a \<le> b)"
| "less_eq_val (Fin a) PInf = True"
| "less_eq_val PInf NInf = False"
| "less_eq_val PInf (Fin b) = False"
| "less_eq_val PInf PInf = True"

fun less_val :: "val \<Rightarrow> val \<Rightarrow> bool" where
  "less_val NInf NInf = False"
| "less_val NInf (Fin b) = True"
| "less_val NInf PInf = True"
| "less_val (Fin a) NInf = False"
| "less_val (Fin a) (Fin b) = (a < b)"
| "less_val (Fin a) PInf = True"
| "less_val PInf NInf = False"
| "less_val PInf (Fin b) = False"
| "less_val PInf PInf = False"

instance
proof
  fix x y z :: val
  show "(x < y) = (x \<le> y \<and> \<not> y \<le> x)" by (cases x; cases y) auto
  show "x \<le> x" by (cases x) auto
  show "x \<le> y \<Longrightarrow> y \<le> z \<Longrightarrow> x \<le> z" by (cases x; cases y; cases z) auto
  show "x \<le> y \<Longrightarrow> y \<le> x \<Longrightarrow> x = y" by (cases x; cases y) auto
  show "x \<le> y \<or> y \<le> x" by (cases x; cases y) auto
qed

end

subsection \<open>Conversion to a C \<open>float\<close>\<close>

text \<open>
  \<open>pop_fast\<close> and \<open>value_of_fast\<close> are declared \<open>cdef float\<close>, and \<open>pop_fast\<close> keeps the value
  it found in a \<open>cdef float\<close> variable: the \<open>double\<close> is converted to single precision. A
  \<open>float\<close> has a significand of 24 bits, so the floats around a natural number \<open>a\<close> of more
  than 24 bits are the multiples of \<open>2 ^ ulp_exp a\<close>; the conversion rounds to the nearest
  of them (\<open>round_to\<close>), to the one with an even significand when two are equally near,
  and to an infinity when the result reaches \<open>2 ^ 128\<close> (the largest float is
  \<open>2 ^ 128 - 2 ^ 104\<close>). The conversion of the \<open>float\<close> back to a Python number is exact.
\<close>

function ulp_exp :: "int \<Rightarrow> nat" where
  "ulp_exp a = (if a < 2 ^ 24 then 0 else Suc (ulp_exp (a div 2)))"
  by pat_completeness auto
termination
  by (relation "measure nat") auto

declare ulp_exp.simps [simp del]

definition round_to :: "int \<Rightarrow> int \<Rightarrow> int" where
  "round_to u a =
     (let q = a div u;
          r = a mod u
      in if 2 * r < u \<or> (2 * r = u \<and> q mod 2 = 0) then q * u else (q + 1) * u)"

definition round_float :: "int \<Rightarrow> int" where
  "round_float a = round_to (2 ^ ulp_exp a) a"

fun to_float :: "val \<Rightarrow> val" where
  "to_float NInf = NInf"
| "to_float PInf = PInf"
| "to_float (Fin n) =
     (let m = round_float \<bar>n\<bar>
      in if 2 ^ 128 \<le> m then (if n < 0 then NInf else PInf)
         else Fin (if n < 0 then - m else m))"

subsection \<open>Buffers\<close>

definition rd :: "'a list \<Rightarrow> int \<Rightarrow> 'a" where
  "rd p i = (if 0 \<le> i then p ! nat i else undefined)"

definition wr :: "'a list \<Rightarrow> int \<Rightarrow> 'a \<Rightarrow> 'a list" where
  "wr p i v = (if 0 \<le> i then p[nat i := v] else p)"

text \<open>\<open>for i in range(n): p[i] = v\<close>\<close>

definition fill :: "'a list \<Rightarrow> int \<Rightarrow> 'a \<Rightarrow> 'a list" where
  "fill p n v = fold (\<lambda>i q. wr q (int i) v) [0..<nat n] p"

text \<open>
  \<open>malloc(n * sizeof(T))\<close>: a buffer of \<open>n\<close> cells whose contents are whatever the
  allocator left there, given by \<open>u\<close>.
\<close>

definition malloc :: "int \<Rightarrow> (nat \<Rightarrow> 'a) \<Rightarrow> 'a list" where
  "malloc n u = map u [0..<nat n]"

definition int_min :: "int \<Rightarrow> int \<Rightarrow> int" where
  "int_min a b = (if a \<le> b then a else b)"

text \<open>
  \<open>1 << n\<close> for a C \<open>int\<close> \<open>n\<close> that can be negative (\<open>_remove\<close> shifts by \<open>levels - 2\<close>): a
  negative shift count is undefined behaviour in C, and the result is then unspecified.
\<close>

definition shl1 :: "int \<Rightarrow> int" where
  "shl1 n = (if 0 \<le> n then 2 ^ nat n else undefined)"

subsection \<open>The classes\<close>

datatype exn = IndexError string | ValueError string

record BinaryHeap =
  count :: int
  levels :: nat
  min_levels :: nat
  vals :: "val list"
  references :: "int list"
  popped_ref :: int

record FastUpdateBinaryHeap = BinaryHeap +
  max_reference :: int
  crossref :: "int list"
  pushed :: int
  invalid_ref :: int

subsection \<open>\<open>BinaryHeap\<close>: maintenance\<close>

text \<open>
  \<open>_update_one\<close>: the loop \<open>for level in range(self.levels, 1, -1)\<close> runs \<open>levels - 1\<close>
  times; its body does not use \<open>level\<close>.
\<close>

fun update_one_loop :: "val list \<Rightarrow> int \<Rightarrow> nat \<Rightarrow> val list" where
  "update_one_loop vs i 0 = vs"
| "update_one_loop vs i (Suc n) =
     (let ii = (i - 1) div 2;
          vs' = (if rd vs i < rd vs (i + 1) then wr vs ii (rd vs i)
                 else wr vs ii (rd vs (i + 1)));
          i' = (if ii mod 2 \<noteq> 0 then ii else ii - 1)
      in update_one_loop vs' i' n)"

definition update_one :: "'a BinaryHeap_scheme \<Rightarrow> int \<Rightarrow> 'a BinaryHeap_scheme" where
  "update_one h i =
     (let i = (if i mod 2 = 0 then i - 1 else i)
      in h\<lparr>vals := update_one_loop (vals h) i (levels h - 1)\<rparr>)"

text \<open>
  \<open>_update\<close>: for \<open>level = levels, levels - 1, ..., 2\<close> the inner loop visits
  \<open>i = i0, i0 + 2, ...\<close> below \<open>i0 + n\<close>, that is \<open>2 ^ (level - 1)\<close> pairs.
\<close>

definition update_pair :: "val list \<Rightarrow> int \<Rightarrow> val list" where
  "update_pair vs i =
     (let ii = (i - 1) div 2
      in if rd vs i < rd vs (i + 1) then wr vs ii (rd vs i) else wr vs ii (rd vs (i + 1)))"

definition update_level :: "val list \<Rightarrow> nat \<Rightarrow> val list" where
  "update_level vs level =
     (let i0 = 2 ^ level - 1; n = i0 + 1
      in fold (\<lambda>k vs. update_pair vs (i0 + 2 * int k)) [0..<nat ((n + 1) div 2)] vs)"

definition update_all :: "'a BinaryHeap_scheme \<Rightarrow> 'a BinaryHeap_scheme" where
  "update_all h = h\<lparr>vals := fold (\<lambda>level vs. update_level vs level) (rev [2..<levels h + 1]) (vals h)\<rparr>"

text \<open>
  \<open>_add_or_remove_level\<close>: the two fresh buffers are overwritten from end to end by the
  two initialising loops, so what the allocator left in them does not matter.
\<close>

definition add_or_remove_level :: "'a BinaryHeap_scheme \<Rightarrow> int \<Rightarrow> 'a BinaryHeap_scheme" where
  "add_or_remove_level h add_or_remove =
     (let new_levels = nat (int (levels h) + add_or_remove);
          number = 2 ^ new_levels;
          values = fill (malloc (number * 2) (\<lambda>_. PInf)) (number * 2) PInf;
          refs = fill (malloc number (\<lambda>_. 0)) number (- 1);
          old_values = vals h;
          old_references = references h;
          i1 = 2 ^ new_levels - 1;
          i2 = 2 ^ levels h - 1;
          n = int_min (2 ^ new_levels) (2 ^ levels h);
          values = (if count h \<noteq> 0
                    then fold (\<lambda>i vs. wr vs (i1 + int i) (rd old_values (i2 + int i))) [0..<nat n] values
                    else values);
          refs = (if count h \<noteq> 0
                  then fold (\<lambda>i rs. wr rs (int i) (rd old_references (int i))) [0..<nat n] refs
                  else refs)
      in update_all (h\<lparr>vals := values, references := refs, levels := new_levels\<rparr>))"

definition BinaryHeap_remove :: "'a BinaryHeap_scheme \<Rightarrow> int \<Rightarrow> 'a BinaryHeap_scheme" where
  "BinaryHeap_remove h i1 =
     (let lv = levels h;
          cnt = count h;
          i0 = 2 ^ lv - 1;
          i2 = i0 + cnt - 1;
          r1 = i1 - i0;
          r2 = cnt - 1;
          values = wr (vals h) i1 (rd (vals h) i2);
          refs = wr (references h) r1 (rd (references h) r2);
          values = wr values i2 PInf;
          h = h\<lparr>vals := values, references := refs, count := count h - 1\<rparr>;
          cnt = cnt - 1
      in if lv > min_levels h \<and> cnt < shl1 (int lv - 2)
         then add_or_remove_level h (- 1)
         else update_one (update_one h i1) i2)"

subsection \<open>\<open>BinaryHeap\<close>: the C level methods\<close>

definition BinaryHeap_push_fast ::
  "'a BinaryHeap_scheme \<Rightarrow> val \<Rightarrow> int \<Rightarrow> int \<times> 'a BinaryHeap_scheme" where
  "BinaryHeap_push_fast h v reference =
     (let lv = levels h;
          cnt = count h;
          (h, lv) = (if cnt \<ge> 2 ^ lv then (add_or_remove_level h 1, lv + 1) else (h, lv));
          i = (2 ^ lv - 1) + cnt;
          h = h\<lparr>vals := wr (vals h) i v, references := wr (references h) cnt reference\<rparr>;
          h = h\<lparr>count := count h + 1\<rparr>;
          h = update_one h i
      in (cnt, h))"

text \<open>
  The search loop of \<open>pop_fast\<close>: \<open>for level in range(1, levels)\<close>, \<open>levels - 1\<close> steps. The
  value found is held in \<open>cdef float value\<close>: it is the \<open>float\<close> that is compared with \<open>inf\<close>
  and returned.
\<close>

fun descend :: "val list \<Rightarrow> int \<Rightarrow> nat \<Rightarrow> int" where
  "descend vs i 0 = i"
| "descend vs i (Suc n) =
     descend vs (if rd vs i < rd vs (i + 1) then i * 2 + 1 else (i + 1) * 2 + 1) n"

definition pop_fast ::
  "('a BinaryHeap_scheme \<Rightarrow> int \<Rightarrow> 'a BinaryHeap_scheme) \<Rightarrow> 'a BinaryHeap_scheme
     \<Rightarrow> val \<times> 'a BinaryHeap_scheme" where
  "pop_fast remove h =
     (let values = vals h;
          lv = levels h;
          i = descend values 1 (lv - 1);
          i = (if rd values i < rd values (i + 1) then i else i + 1);
          ir = i - (2 ^ lv - 1);
          v = to_float (rd values i);
          h = h\<lparr>popped_ref := rd (references h) ir\<rparr>;
          h = (if v \<noteq> PInf then remove h i else h)
      in (v, h))"

subsection \<open>\<open>BinaryHeap\<close>: the Python level methods\<close>

definition BinaryHeap_reset :: "'a BinaryHeap_scheme \<Rightarrow> 'a BinaryHeap_scheme" where
  "BinaryHeap_reset h =
     (let number = 2 ^ levels h
      in h\<lparr>vals := fill (vals h) (number * 2) PInf\<rparr>)"

text \<open>The loop \<open>while 2**levels < initial_capcity: levels += 1\<close> of the constructor.\<close>

function calc_levels :: "int \<Rightarrow> nat \<Rightarrow> nat" where
  "calc_levels initial_capacity lv =
     (if 2 ^ lv < initial_capacity then calc_levels initial_capacity (lv + 1) else lv)"
  by pat_completeness auto
termination
proof (relation "measure (\<lambda>(c, l). nat c - l)")
  show "wf (measure (\<lambda>(c, l). nat c - l))" by simp
next
  fix initial_capacity :: int and lv :: nat
  assume a: "2 ^ lv < initial_capacity"
  have "lv < 2 ^ lv" by (rule less_exp)
  then have "int lv < int (2 ^ lv)" by (simp only: of_nat_less_iff)
  then have "int lv < 2 ^ lv" by simp
  with a have "lv < nat initial_capacity" by linarith
  then show "((initial_capacity, lv + 1), (initial_capacity, lv)) \<in> measure (\<lambda>(c, l). nat c - l)"
    by simp
qed

declare calc_levels.simps [simp del]

text \<open>
  \<open>__init__\<close>: \<open>self\<close> is the object as allocated; \<open>uv\<close> and \<open>ur\<close> are the contents of the two
  fresh buffers; \<open>reset\<close> is the method \<open>self.reset\<close> resolves to.
\<close>

definition BinaryHeap_init ::
  "('a BinaryHeap_scheme \<Rightarrow> 'a BinaryHeap_scheme) \<Rightarrow> 'a BinaryHeap_scheme \<Rightarrow> int
     \<Rightarrow> (nat \<Rightarrow> val) \<Rightarrow> (nat \<Rightarrow> int) \<Rightarrow> 'a BinaryHeap_scheme" where
  "BinaryHeap_init reset self initial_capacity uv ur =
     (let lv = calc_levels initial_capacity 0;
          self = self\<lparr>min_levels := lv, levels := lv\<rparr>;
          self = self\<lparr>count := 0\<rparr>;
          number = 2 ^ levels self;
          self = self\<lparr>vals := malloc (2 * number) uv\<rparr>;
          self = self\<lparr>references := malloc number ur\<rparr>
      in reset self)"

text \<open>\<open>BinaryHeap(initial_capacity)\<close>: Cython zeroes the fields of a new object.\<close>

definition BinaryHeap_new :: "int \<Rightarrow> (nat \<Rightarrow> val) \<Rightarrow> (nat \<Rightarrow> int) \<Rightarrow> BinaryHeap" where
  "BinaryHeap_new initial_capacity uv ur =
     BinaryHeap_init BinaryHeap_reset
       \<lparr>count = 0, levels = 0, min_levels = 0, vals = [], references = [], popped_ref = 0\<rparr>
       initial_capacity uv ur"

text \<open>\<open>push(value, reference=-1)\<close>: the caller passes \<open>- 1\<close> for the default.\<close>

definition BinaryHeap_push ::
  "'a BinaryHeap_scheme \<Rightarrow> val \<Rightarrow> int \<Rightarrow> (exn + unit) \<times> 'a BinaryHeap_scheme" where
  "BinaryHeap_push h v reference = (Inr (), snd (BinaryHeap_push_fast h v reference))"

definition min_val :: "'a BinaryHeap_scheme \<Rightarrow> exn + val" where
  "min_val h =
     (let values = vals h
      in if rd values 1 < rd values 2 then Inr (rd values 1) else Inr (rd values 2))"

definition pop ::
  "('a BinaryHeap_scheme \<Rightarrow> int \<Rightarrow> 'a BinaryHeap_scheme) \<Rightarrow> 'a BinaryHeap_scheme
     \<Rightarrow> (exn + val \<times> int) \<times> 'a BinaryHeap_scheme" where
  "pop remove h =
     (if count h = 0 then (Inl (IndexError ''pop from an empty heap''), h)
      else (let (v, h) = pop_fast remove h;
                ref = popped_ref h
            in (Inr (v, ref), h)))"

definition BinaryHeap_pop :: "BinaryHeap \<Rightarrow> (exn + val \<times> int) \<times> BinaryHeap" where
  "BinaryHeap_pop h = pop BinaryHeap_remove h"

subsection \<open>\<open>FastUpdateBinaryHeap\<close>\<close>

definition FastUpdateBinaryHeap_reset :: "FastUpdateBinaryHeap \<Rightarrow> FastUpdateBinaryHeap" where
  "FastUpdateBinaryHeap_reset h =
     (let h = BinaryHeap_reset h
      in h\<lparr>crossref := fill (crossref h) (max_reference h + 1) (- 1)\<rparr>)"

text \<open>
  \<open>FastUpdateBinaryHeap(initial_capacity, max_reference)\<close>: \<open>None\<close> is the default
  \<open>max_reference=None\<close>; \<open>uc\<close> is the content of the fresh cross reference buffer.
\<close>

definition FastUpdateBinaryHeap_new ::
  "int \<Rightarrow> int option \<Rightarrow> (nat \<Rightarrow> val) \<Rightarrow> (nat \<Rightarrow> int) \<Rightarrow> (nat \<Rightarrow> int) \<Rightarrow> FastUpdateBinaryHeap" where
  "FastUpdateBinaryHeap_new initial_capacity max_ref uv ur uc =
     (let m = (case max_ref of None \<Rightarrow> initial_capacity - 1 | Some m \<Rightarrow> m);
          self = \<lparr>count = 0, levels = 0, min_levels = 0, vals = [], references = [],
                  popped_ref = 0, max_reference = m, crossref = malloc (m + 1) uc,
                  pushed = 0, invalid_ref = 0\<rparr>
      in BinaryHeap_init FastUpdateBinaryHeap_reset self initial_capacity uv ur)"

definition FastUpdateBinaryHeap_remove :: "FastUpdateBinaryHeap \<Rightarrow> int \<Rightarrow> FastUpdateBinaryHeap" where
  "FastUpdateBinaryHeap_remove h i1 =
     (let lv = levels h;
          cnt = count h;
          i0 = 2 ^ lv - 1;
          i2 = i0 + cnt - 1;
          r1 = i1 - i0;
          r2 = cnt - 1;
          cr = wr (crossref h) (rd (references h) r2) r1;
          cr = wr cr (rd (references h) r1) (- 1);
          values = wr (vals h) i1 (rd (vals h) i2);
          refs = wr (references h) r1 (rd (references h) r2);
          values = wr values i2 PInf;
          h = h\<lparr>crossref := cr, vals := values, references := refs, count := count h - 1\<rparr>;
          cnt = cnt - 1
      in if lv > min_levels h \<and> cnt < shl1 (int lv - 2)
         then add_or_remove_level h (- 1)
         else update_one (update_one h i1) i2)"

definition FastUpdateBinaryHeap_push_fast ::
  "FastUpdateBinaryHeap \<Rightarrow> val \<Rightarrow> int \<Rightarrow> int \<times> FastUpdateBinaryHeap" where
  "FastUpdateBinaryHeap_push_fast h v reference =
     (if \<not> (0 \<le> reference \<and> reference \<le> max_reference h) then (- 1, h)
      else
        (let ir = rd (crossref h) reference
         in if ir \<noteq> - 1
            then (let i = 2 ^ levels h - 1 + ir;
                      h = h\<lparr>vals := wr (vals h) i v\<rparr>;
                      h = update_one h i
                  in (ir, h))
            else (let (ir, h) = BinaryHeap_push_fast h v reference;
                      h = h\<lparr>crossref := wr (crossref h) reference ir\<rparr>
                  in (ir, h))))"

definition push_if_lower_fast ::
  "FastUpdateBinaryHeap \<Rightarrow> val \<Rightarrow> int \<Rightarrow> int \<times> FastUpdateBinaryHeap" where
  "push_if_lower_fast h v reference =
     (if \<not> (0 \<le> reference \<and> reference \<le> max_reference h) then (- 1, h)
      else
        (let ir = rd (crossref h) reference;
             h = h\<lparr>pushed := 1\<rparr>
         in if ir \<noteq> - 1
            then (let i = 2 ^ levels h - 1 + ir;
                      h = (if rd (vals h) i > v
                           then update_one (h\<lparr>vals := wr (vals h) i v\<rparr>) i
                           else h\<lparr>pushed := 0\<rparr>)
                  in (ir, h))
            else (let (ir, h) = BinaryHeap_push_fast h v reference;
                      h = h\<lparr>crossref := wr (crossref h) reference ir\<rparr>
                  in (ir, h))))"

definition value_of_fast :: "FastUpdateBinaryHeap \<Rightarrow> int \<Rightarrow> val \<times> FastUpdateBinaryHeap" where
  "value_of_fast h reference =
     (let ir = rd (crossref h) reference;
          h = h\<lparr>invalid_ref := 0\<rparr>
      in if ir = - 1 then (to_float PInf, h\<lparr>invalid_ref := 1\<rparr>)
         else (let i = 2 ^ levels h - 1 + ir in (to_float (rd (vals h) i), h)))"

definition FastUpdateBinaryHeap_push ::
  "FastUpdateBinaryHeap \<Rightarrow> val \<Rightarrow> int \<Rightarrow> (exn + unit) \<times> FastUpdateBinaryHeap" where
  "FastUpdateBinaryHeap_push h v reference =
     (let (r, h) = FastUpdateBinaryHeap_push_fast h v reference
      in if r = - 1 then (Inl (ValueError ''reference outside of range [0, max_reference]''), h)
         else (Inr (), h))"

definition push_if_lower ::
  "FastUpdateBinaryHeap \<Rightarrow> val \<Rightarrow> int \<Rightarrow> (exn + bool) \<times> FastUpdateBinaryHeap" where
  "push_if_lower h v reference =
     (let (r, h) = push_if_lower_fast h v reference
      in if r = - 1 then (Inl (ValueError ''reference outside of range [0, max_reference]''), h)
         else (Inr (pushed h = 1), h))"

definition value_of :: "FastUpdateBinaryHeap \<Rightarrow> int \<Rightarrow> (exn + val) \<times> FastUpdateBinaryHeap" where
  "value_of h reference =
     (let (v, h) = value_of_fast h reference
      in if invalid_ref h \<noteq> 0 then (Inl (ValueError ''invalid reference''), h)
         else (Inr v, h))"

definition FastUpdateBinaryHeap_pop ::
  "FastUpdateBinaryHeap \<Rightarrow> (exn + val \<times> int) \<times> FastUpdateBinaryHeap" where
  "FastUpdateBinaryHeap_pop h = pop FastUpdateBinaryHeap_remove h"

subsection \<open>Sequences of calls\<close>

text \<open>
  A caller's history is a list of calls. \<open>run\<close> performs them in order on one heap and
  collects the values of the successful \<open>pop\<close> calls; a call that raises leaves the heap
  as the raising method left it and the history goes on.
\<close>

datatype op = Push val int | Pop | Reset

fun BinaryHeap_call :: "BinaryHeap \<Rightarrow> op \<Rightarrow> val list \<times> BinaryHeap" where
  "BinaryHeap_call h (Push v r) = ([], snd (BinaryHeap_push h v r))"
| "BinaryHeap_call h Pop =
     (case BinaryHeap_pop h of
        (Inr (v, r), h') \<Rightarrow> ([v], h')
      | (Inl e, h') \<Rightarrow> ([], h'))"
| "BinaryHeap_call h Reset = ([], BinaryHeap_reset h)"

fun BinaryHeap_run :: "BinaryHeap \<Rightarrow> op list \<Rightarrow> val list \<times> BinaryHeap" where
  "BinaryHeap_run h [] = ([], h)"
| "BinaryHeap_run h (c # cs) =
     (let (a, h1) = BinaryHeap_call h c;
          (b, h2) = BinaryHeap_run h1 cs
      in (a @ b, h2))"

datatype fop = FPush val int | FPushIfLower val int | FPop | FValueOf int | FReset

fun FastUpdateBinaryHeap_call ::
  "FastUpdateBinaryHeap \<Rightarrow> fop \<Rightarrow> val list \<times> FastUpdateBinaryHeap" where
  "FastUpdateBinaryHeap_call h (FPush v r) = ([], snd (FastUpdateBinaryHeap_push h v r))"
| "FastUpdateBinaryHeap_call h (FPushIfLower v r) = ([], snd (push_if_lower h v r))"
| "FastUpdateBinaryHeap_call h FPop =
     (case FastUpdateBinaryHeap_pop h of
        (Inr (v, r), h') \<Rightarrow> ([v], h')
      | (Inl e, h') \<Rightarrow> ([], h'))"
| "FastUpdateBinaryHeap_call h (FValueOf r) = ([], snd (value_of h r))"
| "FastUpdateBinaryHeap_call h FReset = ([], FastUpdateBinaryHeap_reset h)"

fun FastUpdateBinaryHeap_run ::
  "FastUpdateBinaryHeap \<Rightarrow> fop list \<Rightarrow> val list \<times> FastUpdateBinaryHeap" where
  "FastUpdateBinaryHeap_run h [] = ([], h)"
| "FastUpdateBinaryHeap_run h (c # cs) =
     (let (a, h1) = FastUpdateBinaryHeap_call h c;
          (b, h2) = FastUpdateBinaryHeap_run h1 cs
      in (a @ b, h2))"

text \<open>
  Histories in which no push carries a value below the value the latest \<open>pop\<close> before it
  returned; \<open>b\<close> is the value of the latest \<open>pop\<close> before the history, \<open>NInf\<close> when there
  is none.
\<close>

fun op_above :: "val \<Rightarrow> op \<Rightarrow> bool" where
  "op_above b (Push v r) = (b \<le> v)"
| "op_above b Pop = True"
| "op_above b Reset = True"

fun BinaryHeap_pushes_above :: "BinaryHeap \<Rightarrow> val \<Rightarrow> op list \<Rightarrow> bool" where
  "BinaryHeap_pushes_above h b [] = True"
| "BinaryHeap_pushes_above h b (c # cs) =
     (op_above b c \<and>
      BinaryHeap_pushes_above (snd (BinaryHeap_call h c)) (last (b # fst (BinaryHeap_call h c))) cs)"

fun fop_above :: "val \<Rightarrow> fop \<Rightarrow> bool" where
  "fop_above b (FPush v r) = (b \<le> v)"
| "fop_above b (FPushIfLower v r) = (b \<le> v)"
| "fop_above b FPop = True"
| "fop_above b (FValueOf r) = True"
| "fop_above b FReset = True"

fun FastUpdateBinaryHeap_pushes_above ::
  "FastUpdateBinaryHeap \<Rightarrow> val \<Rightarrow> fop list \<Rightarrow> bool" where
  "FastUpdateBinaryHeap_pushes_above h b [] = True"
| "FastUpdateBinaryHeap_pushes_above h b (c # cs) =
     (fop_above b c \<and>
      FastUpdateBinaryHeap_pushes_above (snd (FastUpdateBinaryHeap_call h c))
        (last (b # fst (FastUpdateBinaryHeap_call h c))) cs)"

subsection \<open>Invariants\<close>

text \<open>
  The position \<open>p\<close> of a leaf is relative to the start \<open>2 ^ levels - 1\<close> of the last level.
\<close>

definition leaf :: "'a BinaryHeap_scheme \<Rightarrow> int \<Rightarrow> val" where
  "leaf h p = rd (vals h) (2 ^ levels h - 1 + p)"

text \<open>
  The shape of a heap whose constructor was given a capacity of at least two: the buffers
  have the sizes of the current number of levels, every slot of the levels
  \<open>1, ..., levels - 1\<close> is the minimum of its two children (invariant I1 of the spec), and
  the leaves from \<open>count\<close> on hold the sentinel.
\<close>

definition heap_inv :: "'a BinaryHeap_scheme \<Rightarrow> bool" where
  "heap_inv h \<longleftrightarrow>
     1 \<le> min_levels h \<and> min_levels h \<le> levels h \<and>
     0 \<le> count h \<and> count h \<le> 2 ^ levels h \<and>
     int (length (vals h)) = 2 * 2 ^ levels h \<and>
     int (length (references h)) = 2 ^ levels h \<and>
     (\<forall>i\<in>{1..<2 ^ levels h - 1}.
        rd (vals h) i = min (rd (vals h) (2 * i + 1)) (rd (vals h) (2 * i + 2))) \<and>
     (\<forall>p\<in>{count h..<2 ^ levels h}. leaf h p = PInf)"

text \<open>
  The cross reference table has its size, an occupied leaf holds an admissible reference,
  and an entry of the table other than \<open>- 1\<close> is the position of an occupied leaf that
  holds this reference.
\<close>

definition crossref_inv :: "FastUpdateBinaryHeap \<Rightarrow> bool" where
  "crossref_inv h \<longleftrightarrow>
     length (crossref h) = nat (max_reference h + 1) \<and>
     (\<forall>p\<in>{0..<count h}.
        0 \<le> rd (references h) p \<and> rd (references h) p \<le> max_reference h) \<and>
     (\<forall>k\<in>{0..max_reference h}.
        rd (crossref h) k = - 1 \<or>
        (0 \<le> rd (crossref h) k \<and> rd (crossref h) k < count h \<and>
         rd (references h) (rd (crossref h) k) = k))"

text \<open>Invariant I4 of the spec, cross reference consistency.\<close>

definition I4 :: "FastUpdateBinaryHeap \<Rightarrow> bool" where
  "I4 h \<longleftrightarrow>
     (\<forall>p\<in>{0..<count h}. rd (crossref h) (rd (references h) p) = p) \<and>
     (\<forall>k\<in>{0..max_reference h}.
        rd (crossref h) k = - 1 \<longrightarrow> (\<forall>p\<in>{0..<count h}. rd (references h) p \<noteq> k))"

subsection \<open>Example heaps\<close>

text \<open>
  Heaps built by the constructors and \<open>push\<close>, on which the theorems below are run:
  a new heap of each class, two equal values, the sentinel itself as a value, and an indexed heap holding reference
  \<open>1\<close> with value \<open>10\<close> (the start of scenario C of the spec).
\<close>

definition example_new :: BinaryHeap where
  "example_new = BinaryHeap_new 2 (\<lambda>_. PInf) (\<lambda>_. 0)"

definition example_new_indexed :: FastUpdateBinaryHeap where
  "example_new_indexed = FastUpdateBinaryHeap_new 2 None (\<lambda>_. PInf) (\<lambda>_. 0) (\<lambda>_. 0)"

definition example_ties :: BinaryHeap where
  "example_ties =
     snd (BinaryHeap_run (BinaryHeap_new 2 (\<lambda>_. PInf) (\<lambda>_. 0)) [Push (Fin 5) 0, Push (Fin 5) 1])"

definition example_sentinel :: BinaryHeap where
  "example_sentinel = snd (BinaryHeap_push (BinaryHeap_new 2 (\<lambda>_. PInf) (\<lambda>_. 0)) PInf 7)"

definition example_indexed :: FastUpdateBinaryHeap where
  "example_indexed =
     snd (FastUpdateBinaryHeap_push
       (FastUpdateBinaryHeap_new 2 (Some 2) (\<lambda>_. PInf) (\<lambda>_. 0) (\<lambda>_. 0)) (Fin 10) 1)"

subsection \<open>Notions used in the proofs\<close>

text \<open>
  Slot \<open>i\<close> is the minimum of its two children \<open>2 * i + 1\<close> and \<open>2 * i + 2\<close>; \<open>m\<close> is
  a proper ancestor of slot \<open>i\<close> (the parent of \<open>i\<close> is \<open>(i - 1) div 2\<close>); and the choice
  the search of \<open>pop_fast\<close> makes between the slots \<open>i\<close> and \<open>i + 1\<close>.
\<close>

definition ok :: "val list \<Rightarrow> int \<Rightarrow> bool" where
  "ok vs i \<longleftrightarrow> rd vs i = min (rd vs (2 * i + 1)) (rd vs (2 * i + 2))"

inductive anc :: "int \<Rightarrow> int \<Rightarrow> bool" where
  parent: "anc ((i - 1) div 2) i"
| grand: "anc m ((i - 1) div 2) \<Longrightarrow> anc m i"

definition pick :: "val list \<Rightarrow> int \<Rightarrow> int" where
  "pick vs i = (if rd vs i < rd vs (i + 1) then i else i + 1)"

definition tree_ok :: "val list \<Rightarrow> nat \<Rightarrow> bool" where
  "tree_ok vs L \<longleftrightarrow> (\<forall>m. 1 \<le> m \<and> m < 2 ^ L - 1 \<longrightarrow> ok vs m)"

definition min_leaf :: "'a BinaryHeap_scheme \<Rightarrow> int" where
  "min_leaf h = pick (vals h) (descend (vals h) 1 (levels h - 1)) - (2 ^ levels h - 1)"

definition lower_bound :: "'a BinaryHeap_scheme \<Rightarrow> val \<Rightarrow> bool" where
  "lower_bound h b \<longleftrightarrow> (\<forall>q. 0 \<le> q \<and> q < 2 ^ levels h \<longrightarrow> b \<le> leaf h q)"

text \<open>Every leaf, converted to a \<open>float\<close>, is at least \<open>b\<close>.\<close>

definition float_bound :: "'a BinaryHeap_scheme \<Rightarrow> val \<Rightarrow> bool" where
  "float_bound h b \<longleftrightarrow> (\<forall>q. 0 \<le> q \<and> q < 2 ^ levels h \<longrightarrow> b \<le> to_float (leaf h q))"

definition removes :: "('a BinaryHeap_scheme \<Rightarrow> int \<Rightarrow> 'a BinaryHeap_scheme) \<Rightarrow> bool" where
  "removes rm \<longleftrightarrow>
     (\<forall>g i. \<exists>g'. rm g i = BinaryHeap_remove g' i \<and> count g' = count g \<and> levels g' = levels g \<and>
        min_levels g' = min_levels g \<and> vals g' = vals g \<and> references g' = references g \<and>
        popped_ref g' = popped_ref g)"

definition fu_inv :: "FastUpdateBinaryHeap \<Rightarrow> bool" where
  "fu_inv h \<longleftrightarrow> heap_inv h \<and> crossref_inv h"

section \<open>Properties\<close>

subsection \<open>The conversion to a C \<open>float\<close>\<close>

text \<open>
  The conversion is monotone and leaves a float as it is; an integer of at most 24 bits
  is a float.
\<close>

lemma le_PInf [simp]: "x \<le> PInf"
  by (cases x) simp_all

lemma NInf_le [simp]: "NInf \<le> x"
  by (cases x) simp_all

lemma ulp_exp_small: "a < 2 ^ 24 \<Longrightarrow> ulp_exp a = 0"
  by (simp add: ulp_exp.simps)

lemma ulp_exp_large: "\<not> a < 2 ^ 24 \<Longrightarrow> ulp_exp a = Suc (ulp_exp (a div 2))"
  by (subst ulp_exp.simps) simp

lemma ulp_upper: "a < 2 ^ 24 * 2 ^ ulp_exp a"
proof (induction a rule: ulp_exp.induct)
  case (1 a)
  show ?case
  proof (cases "a < 2 ^ 24")
    case True
    then show ?thesis by (simp add: ulp_exp_small)
  next
    case False
    define X :: int where "X = 2 ^ 24 * 2 ^ ulp_exp (a div 2)"
    have "a div 2 < X" unfolding X_def using 1 False by simp
    then have "a < 2 * X" by linarith
    then show ?thesis by (simp add: ulp_exp_large [OF False] X_def)
  qed
qed

lemma ulp_lower: "0 < ulp_exp a \<Longrightarrow> 2 ^ 23 * 2 ^ ulp_exp a \<le> a"
proof (induction a rule: ulp_exp.induct)
  case (1 a)
  show ?case
  proof (cases "a < 2 ^ 24")
    case True
    then show ?thesis using 1(2) by (simp add: ulp_exp_small)
  next
    case False
    note e = ulp_exp_large [OF False]
    show ?thesis
    proof (cases "0 < ulp_exp (a div 2)")
      case True
      define X :: int where "X = 2 ^ 23 * 2 ^ ulp_exp (a div 2)"
      have "X \<le> a div 2" unfolding X_def using 1(1) False True by simp
      then have "2 * X \<le> a" by linarith
      then show ?thesis by (simp add: e X_def)
    next
      case F: False
      then have "ulp_exp a = 1" by (simp add: e)
      then show ?thesis using False by simp
    qed
  qed
qed

lemma pow2_step: "j < k \<Longrightarrow> 2 * (2::int) ^ j \<le> 2 ^ k"
proof -
  assume "j < k"
  then have "Suc j \<le> k" by simp
  then have "(2::int) ^ Suc j \<le> 2 ^ k" by (rule power_increasing) simp
  then show ?thesis by simp
qed

lemma ulp_exp_eqI:
  assumes "a < 2 ^ 24 * 2 ^ k" and "0 < k \<longrightarrow> 2 ^ 23 * 2 ^ k \<le> a"
  shows "ulp_exp a = k"
proof (rule ccontr)
  assume ne: "ulp_exp a \<noteq> k"
  show False
  proof (cases "ulp_exp a < k")
    case True
    note s = pow2_step [OF True]
    have "2 ^ 23 * 2 ^ k \<le> a" using assms(2) True by simp
    then show False using ulp_upper [of a] s by simp
  next
    case False
    then have g: "k < ulp_exp a" using ne by simp
    note s = pow2_step [OF g]
    have "2 ^ 23 * 2 ^ ulp_exp a \<le> a" using g by (intro ulp_lower) simp
    then show False using assms(1) s by simp
  qed
qed

lemma ulp_exp_mono: "a \<le> b \<Longrightarrow> ulp_exp a \<le> ulp_exp b"
proof (rule ccontr)
  assume ab: "a \<le> b" and "\<not> ulp_exp a \<le> ulp_exp b"
  then have g: "ulp_exp b < ulp_exp a" by simp
  note s = pow2_step [OF g]
  have "2 ^ 23 * 2 ^ ulp_exp a \<le> a" using g by (intro ulp_lower) simp
  then show False using ulp_upper [of b] ab s by simp
qed

lemma div_times_le: "0 < u \<Longrightarrow> a div u * u \<le> (a::int)"
  using div_mult_mod_eq [of a u] pos_mod_sign [of u a] by linarith

lemma div_less: "0 < u \<Longrightarrow> a < n * u \<Longrightarrow> a div u < (n::int)"
proof (rule ccontr)
  assume u: "0 < u" and a: "a < n * u" and "\<not> a div u < n"
  then have "n \<le> a div u" by simp
  then have "n * u \<le> a div u * u" using u by (intro mult_right_mono) simp_all
  then show False using div_times_le [OF u, of a] a by linarith
qed

lemma div_ge: "0 < u \<Longrightarrow> n * u \<le> a \<Longrightarrow> (n::int) \<le> a div u"
proof -
  assume u: "0 < u" and a: "n * u \<le> a"
  have "n * u div u \<le> a div u" using a u by (rule zdiv_mono1)
  then show ?thesis using u by simp
qed

lemma round_to_bounds:
  assumes "0 < u"
  shows "a div u * u \<le> round_to u a" and "round_to u a \<le> (a div u + 1) * u"
  using assms by (simp_all add: round_to_def Let_def algebra_simps)

lemma round_to_cases: "round_to u a = a div u * u \<or> round_to u a = (a div u + 1) * u"
  by (simp add: round_to_def Let_def)

lemma round_to_one: "round_to 1 a = a"
  by (simp add: round_to_def Let_def)

lemma round_to_multiple: "0 < u \<Longrightarrow> round_to u (q * u) = q * u"
  by (simp add: round_to_def Let_def)

lemma round_to_mono:
  assumes u: "0 < u" and ab: "a \<le> b"
  shows "round_to u a \<le> round_to u b"
proof (cases "a div u = b div u")
  case True
  have "a mod u \<le> b mod u"
  proof -
    note ea = div_mult_mod_eq [of a u, unfolded True] and eb = div_mult_mod_eq [of b u]
    from ea eb ab show ?thesis by linarith
  qed
  then show ?thesis unfolding round_to_def Let_def True using u by (auto simp: algebra_simps)
next
  case False
  have "a div u \<le> b div u" using ab u by (rule zdiv_mono1)
  then have "a div u + 1 \<le> b div u" using False by simp
  then have "(a div u + 1) * u \<le> b div u * u" using u by (intro mult_right_mono) simp_all
  then show ?thesis using round_to_bounds [OF u, of a] round_to_bounds [OF u, of b] by linarith
qed

lemma ulp_quotient:
  shows "a div 2 ^ ulp_exp a < 2 ^ 24"
    and "0 < ulp_exp a \<Longrightarrow> 2 ^ 23 \<le> a div 2 ^ ulp_exp a"
proof -
  define u :: int where "u = 2 ^ ulp_exp a"
  have u: "0 < u" by (simp add: u_def)
  have "a < 2 ^ 24 * u" unfolding u_def by (rule ulp_upper)
  then show "a div 2 ^ ulp_exp a < 2 ^ 24"
    unfolding u_def [symmetric] by (rule div_less [OF u])
  show "2 ^ 23 \<le> a div 2 ^ ulp_exp a" if "0 < ulp_exp a"
  proof -
    have "2 ^ 23 * u \<le> a" unfolding u_def using that by (rule ulp_lower)
    then show ?thesis unfolding u_def [symmetric] by (rule div_ge [OF u])
  qed
qed

lemma round_float_upper: "round_float a \<le> 2 ^ 24 * 2 ^ ulp_exp a"
proof -
  define u :: int where "u = 2 ^ ulp_exp a"
  have u: "0 < u" by (simp add: u_def)
  have "a div u + 1 \<le> 2 ^ 24" using ulp_quotient(1) [of a] by (simp add: u_def)
  then have "(a div u + 1) * u \<le> 2 ^ 24 * u" using u by (intro mult_right_mono) simp_all
  then show ?thesis
    using round_to_bounds(2) [OF u, of a] unfolding round_float_def u_def [symmetric] by linarith
qed

lemma round_float_lower: "0 < ulp_exp a \<Longrightarrow> 2 ^ 23 * 2 ^ ulp_exp a \<le> round_float a"
proof -
  assume e: "0 < ulp_exp a"
  define u :: int where "u = 2 ^ ulp_exp a"
  have u: "0 < u" by (simp add: u_def)
  have "2 ^ 23 \<le> a div u" using ulp_quotient(2) [OF e] by (simp add: u_def)
  then have "2 ^ 23 * u \<le> a div u * u" using u by (intro mult_right_mono) simp_all
  then show ?thesis
    using round_to_bounds(1) [OF u, of a] unfolding round_float_def u_def [symmetric] by linarith
qed

lemma round_float_mono: "a \<le> b \<Longrightarrow> round_float a \<le> round_float b"
proof -
  assume ab: "a \<le> b"
  have le: "ulp_exp a \<le> ulp_exp b" using ab by (rule ulp_exp_mono)
  show ?thesis
  proof (cases "ulp_exp a = ulp_exp b")
    case True
    have "round_to (2 ^ ulp_exp b) a \<le> round_to (2 ^ ulp_exp b) b"
      using ab by (intro round_to_mono) simp_all
    then show ?thesis by (simp add: round_float_def True)
  next
    case False
    then have lt: "ulp_exp a < ulp_exp b" using le by simp
    note s = pow2_step [OF lt]
    have "round_float a \<le> 2 ^ 24 * 2 ^ ulp_exp a" by (rule round_float_upper)
    moreover have "2 ^ 23 * 2 ^ ulp_exp b \<le> round_float b" using lt by (intro round_float_lower) simp
    ultimately show ?thesis using s by simp
  qed
qed

lemma round_float_idem: "round_float (round_float a) = round_float a"
proof (cases "ulp_exp a = 0")
  case True
  then have "round_float a = a" by (simp add: round_float_def round_to_one)
  then show ?thesis by simp
next
  case False
  then have e: "0 < ulp_exp a" by simp
  define u :: int where "u = 2 ^ ulp_exp a"
  define q where "q = a div u"
  have u: "0 < u" by (simp add: u_def)
  have q: "q < 2 ^ 24" "2 ^ 23 \<le> q"
    using ulp_quotient(1) [of a] ulp_quotient(2) [OF e] by (simp_all add: q_def u_def)
  have r: "round_float a = round_to u a" by (simp add: round_float_def u_def)
  have stable: "round_float (q' * u) = q' * u" if "2 ^ 23 \<le> q'" "q' \<le> 2 ^ 24" for q'
  proof (cases "q' = 2 ^ 24")
    case True
    have "ulp_exp (q' * u) = Suc (ulp_exp a)"
      by (rule ulp_exp_eqI) (simp_all add: True u_def)
    then have "round_float (q' * u) = round_to (2 * u) (2 ^ 23 * (2 * u))"
      by (simp add: round_float_def u_def True)
    also have "\<dots> = 2 ^ 23 * (2 * u)" using u by (intro round_to_multiple) simp
    finally show ?thesis by (simp add: True)
  next
    case False
    then have lt: "q' < 2 ^ 24" using that(2) by simp
    have a1: "q' * u < 2 ^ 24 * u" using lt u by simp
    have a2: "2 ^ 23 * u \<le> q' * u" using that(1) u by (intro mult_right_mono) simp_all
    have "ulp_exp (q' * u) = ulp_exp a"
      using a1 a2 by (intro ulp_exp_eqI) (simp_all add: u_def)
    then have "round_float (q' * u) = round_to u (q' * u)" by (simp add: round_float_def u_def)
    then show ?thesis using u by (simp add: round_to_multiple)
  qed
  from round_to_cases [of u a] show ?thesis
  proof
    assume "round_to u a = a div u * u"
    then show ?thesis using stable [of q] q by (simp add: r q_def)
  next
    assume "round_to u a = (a div u + 1) * u"
    then show ?thesis using stable [of "q + 1"] q by (simp add: r q_def)
  qed
qed

lemma round_float_nonneg: "0 \<le> a \<Longrightarrow> 0 \<le> round_float a"
proof -
  assume a: "0 \<le> a"
  have "round_float 0 = 0" by (simp add: round_float_def round_to_def Let_def)
  then show ?thesis using round_float_mono [OF a] by simp
qed

lemma to_float_Fin:
  "to_float (Fin n) =
     (if 2 ^ 128 \<le> round_float \<bar>n\<bar> then (if n < 0 then NInf else PInf)
      else Fin (if n < 0 then - round_float \<bar>n\<bar> else round_float \<bar>n\<bar>))"
  by (simp add: Let_def)

lemma to_float_mono: "x \<le> y \<Longrightarrow> to_float x \<le> to_float y"
proof (cases x; cases y)
  fix a b assume x: "x = Fin a" and y: "y = Fin b" and le: "x \<le> y"
  then have ab: "a \<le> b" by simp
  define ma where "ma = round_float \<bar>a\<bar>"
  define mb where "mb = round_float \<bar>b\<bar>"
  have p: "0 \<le> a \<Longrightarrow> ma \<le> mb"
    unfolding ma_def mb_def using ab by (intro round_float_mono) linarith
  have n: "b < 0 \<Longrightarrow> mb \<le> ma"
    unfolding ma_def mb_def using ab by (intro round_float_mono) linarith
  have z: "0 \<le> ma" "0 \<le> mb" unfolding ma_def mb_def by (intro round_float_nonneg; simp)+
  show ?thesis
    unfolding x y to_float_Fin ma_def [symmetric] mb_def [symmetric]
    using ab p n z by auto
qed simp_all

lemma to_float_idem: "to_float (to_float x) = to_float x"
proof (cases x)
  case (Fin n)
  define m where "m = round_float \<bar>n\<bar>"
  define k where "k = (if n < 0 then - m else m)"
  have m0: "0 \<le> m" unfolding m_def by (intro round_float_nonneg) simp
  have mk: "\<bar>k\<bar> = m" using m0 by (simp add: k_def)
  have kk: "(if k < 0 then - m else m) = k" using m0 by (simp add: k_def)
  have rr: "round_float m = m" unfolding m_def by (rule round_float_idem)
  show ?thesis
  proof (cases "2 ^ 128 \<le> m")
    case True
    then show ?thesis by (simp add: Fin to_float_Fin m_def [symmetric])
  next
    case False
    then have "to_float x = Fin k" by (simp add: Fin to_float_Fin m_def [symmetric] k_def)
    moreover have "to_float (Fin k) = Fin k"
      unfolding to_float_Fin mk rr using False kk by simp
    ultimately show ?thesis by simp
  qed
qed simp_all

lemma to_float_small: "\<bar>n\<bar> < 2 ^ 24 \<Longrightarrow> to_float (Fin n) = Fin n"
proof -
  assume a: "\<bar>n\<bar> < 2 ^ 24"
  then have "ulp_exp \<bar>n\<bar> = 0" by (rule ulp_exp_small)
  then have r: "round_float \<bar>n\<bar> = \<bar>n\<bar>" by (simp add: round_float_def round_to_one)
  show ?thesis unfolding to_float_Fin r using a by auto
qed

subsection \<open>Reading and writing buffers\<close>

lemma length_wr: "length (wr p i v) = length p"
  by (simp add: wr_def)

lemma rd_wr_same: "0 \<le> i \<Longrightarrow> i < int (length p) \<Longrightarrow> rd (wr p i v) i = v"
  by (simp add: rd_def wr_def)

lemma rd_wr_other: "i \<noteq> j \<Longrightarrow> 0 \<le> j \<Longrightarrow> rd (wr p i v) j = rd p j"
  by (auto simp add: rd_def wr_def)

lemma fill_prefix:
  "k \<le> length p \<Longrightarrow> fold (\<lambda>i q. wr q (int i) v) [0..<k] p = replicate k v @ drop k p"
proof (induction k)
  case 0
  then show ?case by simp
next
  case (Suc k)
  then have "fold (\<lambda>i q. wr q (int i) v) [0..<Suc k] p = wr (replicate k v @ drop k p) (int k) v"
    by simp
  also have "\<dots> = replicate k v @ (drop k p)[0 := v]"
    by (simp add: wr_def list_update_append)
  also have "(drop k p)[0 := v] = v # drop (Suc k) p"
    using Suc.prems by (simp add: Cons_nth_drop_Suc [symmetric] Suc_le_lessD)
  finally show ?case by (simp add: replicate_append_same)
qed

lemma fill_all: "n = int (length p) \<Longrightarrow> fill p n v = replicate (length p) v"
  by (simp add: fill_def fill_prefix)

lemma length_malloc: "length (malloc n u) = nat n"
  by (simp add: malloc_def)

lemma fill_malloc: "fill (malloc n u) n v = replicate (nat n) v"
proof (cases "0 \<le> n")
  case True
  then show ?thesis by (simp add: fill_all length_malloc)
next
  case False
  then show ?thesis by (simp add: fill_def malloc_def)
qed

subsection \<open>Repairing one path\<close>

lemma anc_step: "anc m i \<longleftrightarrow> m = (i - 1) div 2 \<or> anc m ((i - 1) div 2)"
  by (auto intro: anc.intros elim: anc.cases)

lemma anc_sibling: "even ii \<Longrightarrow> anc m (ii - 1) \<longleftrightarrow> anc m ii"
proof -
  assume "even ii"
  then have "(ii - 1 - 1) div 2 = (ii - 1) div 2" by presburger
  then show ?thesis using anc_step [of m "ii - 1"] anc_step [of m ii] by simp
qed

lemma anc_less: "anc m i \<Longrightarrow> m < max i 0"
proof (induction rule: anc.induct)
  case (parent i)
  then show ?case by (cases "1 \<le> i") auto
next
  case (grand m i)
  then show ?case by (cases "1 \<le> i") auto
qed

lemma not_anc_one: "1 \<le> m \<Longrightarrow> \<not> anc m 1"
  using anc_less [of m 1] by auto

lemma min_if: "(if (a::val) < b then a else b) = min a b"
  by (auto simp: min_def)

lemma update_one_loop_Suc:
  "update_one_loop vs i (Suc n) =
     update_one_loop (wr vs ((i - 1) div 2) (min (rd vs i) (rd vs (i + 1))))
       (if even ((i - 1) div 2) then (i - 1) div 2 - 1 else (i - 1) div 2) n"
proof -
  have "((i - 1) div 2 mod 2 \<noteq> 0) = odd ((i - 1) div 2)" by presburger
  then show ?thesis
    by (simp add: Let_def min_if [symmetric] del: One_nat_def)
qed

lemma length_update_one_loop: "length (update_one_loop vs i n) = length vs"
  by (induction n arbitrary: vs i) (simp_all add: update_one_loop_Suc length_wr del: update_one_loop.simps(2))

lemma update_one_loop_frame:
  "0 \<le> k \<Longrightarrow> i \<le> k \<Longrightarrow> rd (update_one_loop vs i n) k = rd vs k"
proof (induction n arbitrary: vs i)
  case 0
  then show ?case by simp
next
  case (Suc n)
  define ii where "ii = (i - 1) div 2"
  define vs' where "vs' = wr vs ii (min (rd vs i) (rd vs (i + 1)))"
  define i' where "i' = (if even ii then ii - 1 else ii)"
  have unf: "update_one_loop vs i (Suc n) = update_one_loop vs' i' n"
    by (simp only: update_one_loop_Suc ii_def vs'_def i'_def)
  have lt: "ii \<noteq> k" "i' \<le> k" using Suc.prems by (auto simp: ii_def i'_def)
  have "rd vs' k = rd vs k" using lt Suc.prems by (simp add: vs'_def rd_wr_other)
  moreover have "rd (update_one_loop vs' i' n) k = rd vs' k"
    using Suc.IH [of i' vs'] Suc.prems lt by simp
  ultimately show ?case by (simp only: unf)
qed

lemma update_one_loop_repair:
  assumes "2 ^ Suc n - 1 \<le> i" and "i + 1 < 2 ^ Suc (Suc n) - 1" and "odd i"
    and "i + 1 < int (length vs)"
    and "\<forall>m. 1 \<le> m \<and> m < M \<and> \<not> E m \<and> \<not> anc m i \<longrightarrow> ok vs m"
  shows "\<forall>m. 1 \<le> m \<and> m < M \<and> \<not> E m \<longrightarrow> ok (update_one_loop vs i n) m"
  using assms
proof (induction n arbitrary: vs i)
  case 0
  then have "i = 1" by simp
  with 0 show ?case by (auto simp: not_anc_one)
next
  case (Suc n)
  define P :: int where "P = 2 ^ n"
  have P: "1 \<le> P" by (simp add: P_def)
  have lo: "4 * P - 1 \<le> i" and hi: "i + 1 < 8 * P - 1" using Suc.prems by (simp_all add: P_def)
  define ii where "ii = (i - 1) div 2"
  define vs' where "vs' = wr vs ii (min (rd vs i) (rd vs (i + 1)))"
  define i' where "i' = (if even ii then ii - 1 else ii)"
  have unf: "update_one_loop vs i (Suc n) = update_one_loop vs' i' n"
    by (simp only: update_one_loop_Suc ii_def vs'_def i'_def)
  have i_eq: "i = 2 * ii + 1" using \<open>odd i\<close> unfolding ii_def by presburger
  have ii0: "0 \<le> ii" "ii < i" "ii < int (length vs)" using lo P Suc.prems(4) i_eq by auto
  have "2 * P - 1 \<le> i'" using lo P i_eq unfolding i'_def by presburger
  then have l1: "2 ^ Suc n - 1 \<le> i'" by (simp add: P_def)
  have "i' + 1 < 4 * P - 1" using hi P i_eq unfolding i'_def by presburger
  then have l2: "i' + 1 < 2 ^ Suc (Suc n) - 1" by (simp add: P_def)
  have l3: "odd i'" unfolding i'_def by presburger
  have l4: "i' + 1 < int (length vs')" using ii0 i_eq Suc.prems(4) by (simp add: vs'_def length_wr i'_def) 
  have anc': "anc m i' \<longleftrightarrow> anc m ii" for m
    using anc_sibling [of ii m] by (auto simp: i'_def)
  have pre: "\<forall>m. 1 \<le> m \<and> m < M \<and> \<not> E m \<and> \<not> anc m i' \<longrightarrow> ok vs' m"
  proof (intro allI impI)
    fix m assume m: "1 \<le> m \<and> m < M \<and> \<not> E m \<and> \<not> anc m i'"
    show "ok vs' m"
    proof (cases "m = ii")
      case True
      have "rd vs' ii = min (rd vs i) (rd vs (i + 1))" using ii0 by (simp add: vs'_def rd_wr_same)
      moreover have "rd vs' i = rd vs i" "rd vs' (i + 1) = rd vs (i + 1)"
        using ii0 by (simp_all add: vs'_def rd_wr_other)
      ultimately show ?thesis using True i_eq by (simp add: ok_def add.commute)
    next
      case False
      with m have "\<not> anc m i" using anc_step [of m i] by (simp add: anc' ii_def)
      with m Suc.prems(5) have okm: "ok vs m" by blast
      have "ii \<noteq> 2 * m + 1" "ii \<noteq> 2 * m + 2"
        using m anc.parent [of ii] by (auto simp: anc')
      with False m have "rd vs' m = rd vs m" "rd vs' (2 * m + 1) = rd vs (2 * m + 1)"
        "rd vs' (2 * m + 2) = rd vs (2 * m + 2)"
        by (simp_all add: vs'_def rd_wr_other)
      with okm show ?thesis by (simp add: ok_def)
    qed
  qed
  show ?case unfolding unf by (rule Suc.IH [OF l1 l2 l3 l4 pre])
qed

subsection \<open>The search from the root\<close>

lemma descend_Suc: "descend vs i (Suc n) = descend vs (2 * pick vs i + 1) n"
  by (simp add: pick_def mult.commute)

lemma rd_pick: "rd vs (pick vs i) = min (rd vs i) (rd vs (i + 1))"
  by (auto simp: pick_def min_def)

lemma pick_cases: "pick vs i = i \<or> pick vs i = i + 1"
  by (simp add: pick_def)

lemma pow2_mono: "a \<le> b \<Longrightarrow> (2::int) ^ a \<le> 2 ^ b"
  by (rule power_increasing) simp_all

lemma node_le_leaves:
  assumes "\<forall>m. 1 \<le> m \<and> m < 2 ^ (l + d) - 1 \<longrightarrow> ok vs m"
    and "1 \<le> l" and "2 ^ l - 1 \<le> i" and "i < 2 ^ Suc l - 1"
    and "(i + 1) * 2 ^ d - 1 \<le> k" and "k < (i + 2) * 2 ^ d - 1"
  shows "rd vs i \<le> rd vs k"
  using assms
proof (induction d arbitrary: i l)
  case 0
  then have "k = i" by simp
  then show ?case by simp
next
  case (Suc d)
  define P :: int where "P = 2 ^ d"
  define Q :: int where "Q = 2 ^ l"
  have P: "1 \<le> P" by (simp add: P_def)
  have Q: "2 \<le> Q" using \<open>1 \<le> l\<close> self_le_power [of "2::int" l] by (simp add: Q_def)
  have iQ: "Q - 1 \<le> i" "i < 2 * Q - 1" using Suc.prems by (simp_all add: Q_def)
  have "(2::int) ^ Suc l \<le> 2 ^ (l + Suc d)" by (rule pow2_mono) simp
  then have "2 ^ (l + Suc d) - 1 \<ge> (2::int) ^ Suc l - 1" by linarith
  then have "i < 2 ^ (l + Suc d) - 1" using Suc.prems(4) by linarith
  moreover have "1 \<le> i" using iQ Q by simp
  ultimately have oki: "ok vs i" using Suc.prems(1) by blast
  have tree: "\<forall>m. 1 \<le> m \<and> m < 2 ^ (Suc l + d) - 1 \<longrightarrow> ok vs m" using Suc.prems(1) by simp
  have k: "(2 * i + 2) * P - 1 \<le> k" "k < (2 * i + 4) * P - 1"
    using Suc.prems(5,6) by (simp_all add: P_def algebra_simps)
  show ?case
  proof (cases "k < (2 * i + 3) * P - 1")
    case True
    have "rd vs (2 * i + 1) \<le> rd vs k"
    proof (rule Suc.IH [OF tree])
      show "1 \<le> Suc l" by simp
      show "2 ^ Suc l - 1 \<le> 2 * i + 1" using iQ by (simp add: Q_def [symmetric])
      show "2 * i + 1 < 2 ^ Suc (Suc l) - 1" using iQ by (simp add: Q_def [symmetric])
      show "(2 * i + 1 + 1) * 2 ^ d - 1 \<le> k" using k by (simp add: P_def algebra_simps)
      show "k < (2 * i + 1 + 2) * 2 ^ d - 1" using True by (simp add: P_def algebra_simps)
    qed
    with oki show ?thesis by (simp add: ok_def min_le_iff_disj)
  next
    case False
    have "rd vs (2 * i + 2) \<le> rd vs k"
    proof (rule Suc.IH [OF tree])
      show "1 \<le> Suc l" by simp
      show "2 ^ Suc l - 1 \<le> 2 * i + 2" using iQ by (simp add: Q_def [symmetric])
      show "2 * i + 2 < 2 ^ Suc (Suc l) - 1" using iQ by (simp add: Q_def [symmetric])
      show "(2 * i + 2 + 1) * 2 ^ d - 1 \<le> k" using False by (simp add: P_def algebra_simps)
      show "k < (2 * i + 2 + 2) * 2 ^ d - 1" using k by (simp add: P_def algebra_simps)
    qed
    with oki show ?thesis by (simp add: ok_def min_le_iff_disj)
  qed
qed

lemma descend_pick:
  assumes "\<forall>m. 1 \<le> m \<and> m < 2 ^ (l + n) - 1 \<longrightarrow> ok vs m"
    and "1 \<le> l" and "2 ^ l - 1 \<le> i" and "i + 1 < 2 ^ Suc l - 1"
  shows "(i + 1) * 2 ^ n - 1 \<le> pick vs (descend vs i n) \<and>
         pick vs (descend vs i n) < (i + 3) * 2 ^ n - 1 \<and>
         rd vs (pick vs (descend vs i n)) = min (rd vs i) (rd vs (i + 1)) \<and>
         (\<forall>k. (i + 1) * 2 ^ n - 1 \<le> k \<and> k < (i + 3) * 2 ^ n - 1 \<longrightarrow>
              rd vs (pick vs (descend vs i n)) \<le> rd vs k \<and>
              (rd vs k = rd vs (pick vs (descend vs i n)) \<longrightarrow> k \<le> pick vs (descend vs i n)))"
  using assms
proof (induction n arbitrary: i l)
  case 0
  have "rd vs (pick vs i) \<le> rd vs k \<and> (rd vs k = rd vs (pick vs i) \<longrightarrow> k \<le> pick vs i)"
    if "i \<le> k" "k < i + 2" for k
  proof -
    from that have "k = i \<or> k = i + 1" by linarith
    then show ?thesis by (auto simp: pick_def)
  qed
  then show ?case using pick_cases [of vs i] by (auto simp: rd_pick)
next
  case (Suc n)
  define P :: int where "P = 2 ^ n"
  define Q :: int where "Q = 2 ^ l"
  define j where "j = pick vs i"
  define f where "f = pick vs (descend vs (2 * j + 1) n)"
  have P: "1 \<le> P" by (simp add: P_def)
  have Q: "2 \<le> Q" using \<open>1 \<le> l\<close> self_le_power [of "2::int" l] by (simp add: Q_def)
  have iQ: "Q - 1 \<le> i" "i + 1 < 2 * Q - 1" using Suc.prems by (simp_all add: Q_def)
  have j: "j = i \<or> j = i + 1" using pick_cases [of vs i] by (simp add: j_def)
  have f: "pick vs (descend vs i (Suc n)) = f" by (simp only: descend_Suc f_def j_def)
  have "(2::int) ^ Suc l \<le> 2 ^ (l + Suc n)" by (rule pow2_mono) simp
  then have "2 ^ (l + Suc n) - 1 \<ge> (2::int) ^ Suc l - 1" by linarith
  then have top: "2 * Q - 1 \<le> (2::int) ^ (l + Suc n) - 1" by (simp add: Q_def)
  have tree: "\<forall>m. 1 \<le> m \<and> m < 2 ^ (Suc l + n) - 1 \<longrightarrow> ok vs m" using Suc.prems(1) by simp
  have okj: "ok vs j" using Suc.prems(1) j iQ Q top by auto
  have oki: "ok vs i" "ok vs (i + 1)" using Suc.prems(1) iQ Q top by auto
  have e: "2 * j + 1 + 1 = 2 * j + 2" "2 * j + 1 + 3 = 2 * j + 4" by simp_all
  have IH: "(2 * j + 2) * 2 ^ n - 1 \<le> f \<and> f < (2 * j + 4) * 2 ^ n - 1 \<and>
      rd vs f = min (rd vs (2 * j + 1)) (rd vs (2 * j + 2)) \<and>
      (\<forall>k. (2 * j + 2) * 2 ^ n - 1 \<le> k \<and> k < (2 * j + 4) * 2 ^ n - 1 \<longrightarrow>
           rd vs f \<le> rd vs k \<and> (rd vs k = rd vs f \<longrightarrow> k \<le> f))"
    unfolding f_def e [symmetric]
  proof (rule Suc.IH [OF tree])
    show "1 \<le> Suc l" by simp
    show "2 ^ Suc l - 1 \<le> 2 * j + 1" using iQ j by (auto simp add: Q_def [symmetric])
    show "2 * j + 1 + 1 < 2 ^ Suc (Suc l) - 1" using iQ j by (auto simp add: Q_def [symmetric])
  qed
  have fr: "(2 * j + 2) * P - 1 \<le> f" "f < (2 * j + 4) * P - 1"
    using IH unfolding P_def by blast+
  have fv: "rd vs f = rd vs j" using IH okj unfolding ok_def by simp
  have fj: "rd vs f = min (rd vs i) (rd vs (i + 1))" using fv by (simp add: j_def rd_pick)
  have b1: "(i + 1) * (2 * P) - 1 \<le> f" using fr j P by (auto simp: algebra_simps)
  have b2: "f < (i + 3) * (2 * P) - 1" using fr j P by (auto simp: algebra_simps)
  have all: "rd vs f \<le> rd vs k \<and> (rd vs k = rd vs f \<longrightarrow> k \<le> f)"
    if k: "(i + 1) * (2 * P) - 1 \<le> k" "k < (i + 3) * (2 * P) - 1" for k
  proof (cases "k < (i + 2) * (2 * P) - 1")
    case True
    have le: "rd vs i \<le> rd vs k"
    proof (rule node_le_leaves [OF Suc.prems(1) \<open>1 \<le> l\<close>])
      show "2 ^ l - 1 \<le> i" using iQ by (simp add: Q_def)
      show "i < 2 ^ Suc l - 1" using iQ by (simp add: Q_def)
      show "(i + 1) * 2 ^ Suc n - 1 \<le> k" using k by (simp add: P_def algebra_simps)
      show "k < (i + 2) * 2 ^ Suc n - 1" using True by (simp add: P_def algebra_simps)
    qed
    show ?thesis
    proof (cases "j = i")
      case True
      have "(2 * j + 2) * 2 ^ n - 1 \<le> k \<and> k < (2 * j + 4) * 2 ^ n - 1"
        using k \<open>k < (i + 2) * (2 * P) - 1\<close> True by (simp add: P_def algebra_simps)
      with IH show ?thesis by blast
    next
      case False
      then have ji: "j = i + 1" using j by simp
      then have "\<not> rd vs i < rd vs (i + 1)" by (auto simp: j_def pick_def split: if_splits)
      then have "rd vs f \<le> rd vs k" using le fj by (auto simp add: min_def)
      moreover have "k \<le> f" using fr \<open>k < (i + 2) * (2 * P) - 1\<close> ji by (simp add: algebra_simps)
      ultimately show ?thesis by simp
    qed
  next
    case False
    have le: "rd vs (i + 1) \<le> rd vs k"
    proof (rule node_le_leaves [OF Suc.prems(1) \<open>1 \<le> l\<close>])
      show "2 ^ l - 1 \<le> i + 1" using iQ by (simp add: Q_def)
      show "i + 1 < 2 ^ Suc l - 1" using iQ by (simp add: Q_def)
      show "(i + 1 + 1) * 2 ^ Suc n - 1 \<le> k" using False by (simp add: P_def algebra_simps)
      show "k < (i + 1 + 2) * 2 ^ Suc n - 1" using k by (simp add: P_def algebra_simps)
    qed
    show ?thesis
    proof (cases "j = i")
      case True
      then have "rd vs i < rd vs (i + 1)" by (auto simp: j_def pick_def split: if_splits)
      then have "rd vs f < rd vs k" using le fj by (auto simp add: min_def)
      then show ?thesis by auto
    next
      case False
      then have ji: "j = i + 1" using j by simp
      have "(2 * j + 2) * 2 ^ n - 1 \<le> k \<and> k < (2 * j + 4) * 2 ^ n - 1"
        using k \<open>\<not> k < (i + 2) * (2 * P) - 1\<close> ji by (simp add: P_def algebra_simps)
      with IH show ?thesis by blast
    qed
  qed
  show ?case unfolding f using b1 b2 fj all by (simp add: P_def algebra_simps)
qed

subsection \<open>The full rebuild\<close>

lemma update_pair_eq:
  "update_pair vs i = wr vs ((i - 1) div 2) (min (rd vs i) (rd vs (i + 1)))"
  by (simp add: update_pair_def Let_def min_if [symmetric])

lemma length_update_pair: "length (update_pair vs i) = length vs"
  by (simp add: update_pair_eq length_wr)

lemma update_pairs_fold:
  fixes Q :: int
  assumes "1 \<le> Q" and "int K \<le> Q" and "4 * Q - 1 \<le> int (length vs)"
  defines "ws \<equiv> fold (\<lambda>k vs. update_pair vs (2 * Q - 1 + 2 * int k)) [0..<K] vs"
  shows "length ws = length vs \<and>
         (\<forall>m. Q - 1 \<le> m \<and> m < Q - 1 + int K \<longrightarrow>
              rd ws m = min (rd vs (2 * m + 1)) (rd vs (2 * m + 2))) \<and>
         (\<forall>k. 0 \<le> k \<and> \<not> (Q - 1 \<le> k \<and> k < Q - 1 + int K) \<longrightarrow> rd ws k = rd vs k)"
  using assms(2) unfolding ws_def
proof (induction K)
  case 0
  then show ?case by auto
next
  case (Suc K)
  define ws where "ws = fold (\<lambda>k vs. update_pair vs (2 * Q - 1 + 2 * int k)) [0..<K] vs"
  define i where "i = 2 * Q - 1 + 2 * int K"
  have IH: "length ws = length vs"
    "\<And>m. Q - 1 \<le> m \<Longrightarrow> m < Q - 1 + int K \<Longrightarrow> rd ws m = min (rd vs (2 * m + 1)) (rd vs (2 * m + 2))"
    "\<And>k. 0 \<le> k \<Longrightarrow> \<not> (Q - 1 \<le> k \<and> k < Q - 1 + int K) \<Longrightarrow> rd ws k = rd vs k"
    using Suc unfolding ws_def by auto
  have ii: "(i - 1) div 2 = Q - 1 + int K" unfolding i_def by presburger
  have "fold (\<lambda>k vs. update_pair vs (2 * Q - 1 + 2 * int k)) [0..<Suc K] vs = update_pair ws i"
    unfolding ws_def i_def by simp
  then have step: "fold (\<lambda>k vs. update_pair vs (2 * Q - 1 + 2 * int k)) [0..<Suc K] vs
      = wr ws (Q - 1 + int K) (min (rd ws i) (rd ws (i + 1)))"
    by (simp only: update_pair_eq ii)
  have K: "int K < Q" using Suc.prems by simp
  have rdi: "rd ws i = rd vs i" "rd ws (i + 1) = rd vs (i + 1)"
    using K \<open>1 \<le> Q\<close> by (auto intro!: IH(3) simp: i_def)
  have inr: "0 \<le> Q - 1 + int K" "Q - 1 + int K < int (length ws)"
    using K \<open>1 \<le> Q\<close> assms(3) IH(1) by auto
  show ?case unfolding step
  proof (intro conjI allI impI)
    show "length (wr ws (Q - 1 + int K) (min (rd ws i) (rd ws (i + 1)))) = length vs"
      by (simp add: length_wr IH(1))
  next
    fix m assume m: "Q - 1 \<le> m \<and> m < Q - 1 + int (Suc K)"
    show "rd (wr ws (Q - 1 + int K) (min (rd ws i) (rd ws (i + 1)))) m
        = min (rd vs (2 * m + 1)) (rd vs (2 * m + 2))"
    proof (cases "m = Q - 1 + int K")
      case True
      have "2 * m + 1 = i" "2 * m + 2 = i + 1" using True by (simp_all add: i_def)
      then show ?thesis using True inr rdi by (simp add: rd_wr_same)
    next
      case False
      then have "m < Q - 1 + int K" using m by simp
      then show ?thesis using False m \<open>1 \<le> Q\<close> by (simp add: rd_wr_other IH(2))
    qed
  next
    fix k assume k: "0 \<le> k \<and> \<not> (Q - 1 \<le> k \<and> k < Q - 1 + int (Suc K))"
    then have "k \<noteq> Q - 1 + int K" using \<open>1 \<le> Q\<close> by auto
    then show "rd (wr ws (Q - 1 + int K) (min (rd ws i) (rd ws (i + 1)))) k = rd vs k"
      using k by (auto simp add: rd_wr_other intro!: IH(3))
  qed
qed

lemma update_level_spec:
  assumes "2 ^ Suc (Suc l) - 1 \<le> int (length vs)"
  shows "length (update_level vs (Suc l)) = length vs \<and>
         (\<forall>m. 2 ^ l - 1 \<le> m \<and> m < 2 ^ Suc l - 1 \<longrightarrow>
              rd (update_level vs (Suc l)) m = min (rd vs (2 * m + 1)) (rd vs (2 * m + 2))) \<and>
         (\<forall>k. 0 \<le> k \<and> \<not> (2 ^ l - 1 \<le> k \<and> k < 2 ^ Suc l - 1) \<longrightarrow>
              rd (update_level vs (Suc l)) k = rd vs k)"
proof -
  define Q :: int where "Q = 2 ^ l"
  have Q: "1 \<le> Q" by (simp add: Q_def)
  have n: "nat ((2 * Q - 1 + 1 + 1) div 2) = nat Q" by (rule arg_cong [where f = nat]) presburger
  have eq: "update_level vs (Suc l)
      = fold (\<lambda>k vs. update_pair vs (2 * Q - 1 + 2 * int k)) [0..<nat Q] vs"
    by (simp add: update_level_def Let_def Q_def [symmetric] n)
  have "int (nat Q) \<le> Q" using Q by simp
  moreover have "4 * Q - 1 \<le> int (length vs)" using assms by (simp add: Q_def)
  ultimately show ?thesis
    using update_pairs_fold [OF Q, of "nat Q" vs] Q unfolding eq
    by (simp add: Q_def [symmetric])
qed

lemma update_levels_down:
  assumes "2 * 2 ^ L - 1 \<le> int (length vs)" and "1 \<le> l" and "l \<le> Suc L"
  shows "length (fold (\<lambda>level vs. update_level vs level) (rev [l..<Suc L]) vs) = length vs \<and>
         (\<forall>m. 2 ^ (l - 1) - 1 \<le> m \<and> m < 2 ^ L - 1 \<longrightarrow>
              ok (fold (\<lambda>level vs. update_level vs level) (rev [l..<Suc L]) vs) m) \<and>
         (\<forall>k. 2 ^ L - 1 \<le> k \<longrightarrow>
              rd (fold (\<lambda>level vs. update_level vs level) (rev [l..<Suc L]) vs) k = rd vs k)"
  using assms(2,3)
proof (induction "Suc L - l" arbitrary: l)
  case 0
  then have "l = Suc L" by simp
  then show ?case by auto
next
  case (Suc d)
  then obtain l' where l': "l = Suc l'" by (cases l) auto
  define ws where "ws = fold (\<lambda>level vs. update_level vs level) (rev [Suc l..<Suc L]) vs"
  have lL: "l \<le> L" using Suc.hyps(2) by simp
  have d: "d = Suc L - Suc l" using Suc.hyps(2) by simp
  have IHraw: "length ws = length vs \<and>
         (\<forall>m. 2 ^ (Suc l - 1) - 1 \<le> m \<and> m < 2 ^ L - 1 \<longrightarrow> ok ws m) \<and>
         (\<forall>k. 2 ^ L - 1 \<le> k \<longrightarrow> rd ws k = rd vs k)"
    unfolding ws_def
  proof (rule Suc.hyps(1) [OF d])
    show "1 \<le> Suc l" by simp
    show "Suc l \<le> Suc L" using lL by simp
  qed
  have IH1: "length ws = length vs" using IHraw by blast
  have IH2: "ok ws m" if "2 ^ l - 1 \<le> m" "m < 2 ^ L - 1" for m
    using IHraw that by simp
  have IH3: "rd ws k = rd vs k" if "2 ^ L - 1 \<le> k" for k
    using IHraw that by blast
  have upt: "[l..<Suc L] = l # [Suc l..<Suc L]" using lL by (simp add: upt_conv_Cons)
  have step: "fold (\<lambda>level vs. update_level vs level) (rev [l..<Suc L]) vs = update_level ws l"
    by (simp only: upt rev.simps fold_append fold_simps o_apply ws_def id_apply)
  have "(2::int) ^ l \<le> 2 ^ L" using lL by (rule pow2_mono)
  then have "2 * 2 ^ l - 1 \<le> int (length ws)" using assms(1) IH1 by linarith
  then have "2 ^ Suc l - 1 \<le> int (length ws)" by simp
  then have len: "2 ^ Suc (Suc l') - 1 \<le> int (length ws)" by (simp only: l')
  have spec: "length (update_level ws l) = length ws \<and>
         (\<forall>m. 2 ^ l' - 1 \<le> m \<and> m < 2 ^ Suc l' - 1 \<longrightarrow>
              rd (update_level ws l) m = min (rd ws (2 * m + 1)) (rd ws (2 * m + 2))) \<and>
         (\<forall>k. 0 \<le> k \<and> \<not> (2 ^ l' - 1 \<le> k \<and> k < 2 ^ Suc l' - 1) \<longrightarrow>
              rd (update_level ws l) k = rd ws k)"
    unfolding l' by (rule update_level_spec [OF len])
  have p1: "(1::int) \<le> 2 ^ l'" by simp
  have pl: "(2::int) ^ l = 2 * 2 ^ l'" by (simp add: l')
  have pL: "(2::int) ^ l \<le> 2 ^ L" using lL by (rule pow2_mono)
  have above: "rd (update_level ws l) k = rd ws k" if "2 ^ l - 1 \<le> k" for k
  proof -
    from that p1 pl have "0 \<le> k" by linarith
    moreover from that have "\<not> k < 2 ^ Suc l' - 1" by (simp add: l')
    ultimately show ?thesis using spec by blast
  qed
  have at: "rd (update_level ws l) m = min (rd ws (2 * m + 1)) (rd ws (2 * m + 2))"
    if "2 ^ l' - 1 \<le> m" "m < 2 ^ l - 1" for m
  proof -
    from that have "2 ^ l' - 1 \<le> m \<and> m < 2 ^ Suc l' - 1" by (simp add: l')
    with spec show ?thesis by blast
  qed
  have A: "length (update_level ws l) = length vs" using spec IH1 by simp
  have B: "ok (update_level ws l) m" if m: "2 ^ l' - 1 \<le> m" "m < 2 ^ L - 1" for m
  proof -
    have c1: "rd (update_level ws l) (2 * m + 1) = rd ws (2 * m + 1)"
      by (rule above) (use m(1) pl in linarith)
    have c2: "rd (update_level ws l) (2 * m + 2) = rd ws (2 * m + 2)"
      by (rule above) (use m(1) pl in linarith)
    show ?thesis
    proof (cases "m < 2 ^ l - 1")
      case True
      then have "rd (update_level ws l) m = min (rd ws (2 * m + 1)) (rd ws (2 * m + 2))"
        using at m by blast
      then show ?thesis unfolding ok_def c1 c2 .
    next
      case False
      then have "2 ^ l - 1 \<le> m" by simp
      then have "ok ws m" "rd (update_level ws l) m = rd ws m" using IH2 m above by blast+
      then show ?thesis unfolding ok_def c1 c2 by simp
    qed
  qed
  have C: "rd (update_level ws l) k = rd vs k" if k: "2 ^ L - 1 \<le> k" for k
  proof -
    have "rd (update_level ws l) k = rd ws k" by (rule above) (use k pL in linarith)
    then show ?thesis using IH3 k by simp
  qed
  have l1: "l - 1 = l'" by (simp add: l')
  show ?case unfolding step l1 using A B C by blast
qed

subsection \<open>The invariant under the maintenance methods\<close>

lemma update_one_loop_above:
  "0 \<le> k \<Longrightarrow> (i - 1) div 2 < k \<Longrightarrow> rd (update_one_loop vs i n) k = rd vs k"
proof (induction n arbitrary: vs i)
  case 0
  then show ?case by simp
next
  case (Suc n)
  define ii where "ii = (i - 1) div 2"
  define vs' where "vs' = wr vs ii (min (rd vs i) (rd vs (i + 1)))"
  define i' where "i' = (if even ii then ii - 1 else ii)"
  have unf: "update_one_loop vs i (Suc n) = update_one_loop vs' i' n"
    by (simp only: update_one_loop_Suc ii_def vs'_def i'_def)
  have ne: "ii \<noteq> k" using Suc.prems by (simp add: ii_def)
  have "i' \<le> ii" by (simp add: i'_def)
  with Suc.prems have lt: "(i' - 1) div 2 < k" unfolding ii_def by presburger
  have "rd vs' k = rd vs k" using ne Suc.prems by (simp add: vs'_def rd_wr_other)
  moreover have "rd (update_one_loop vs' i' n) k = rd vs' k"
    by (rule Suc.IH [OF Suc.prems(1) lt])
  ultimately show ?case by (simp only: unf)
qed

text \<open>The slot \<open>_update_one\<close> starts from: the left one of the pair that holds leaf \<open>i\<close>.\<close>

lemma repair_after_leaf_change:
  assumes len: "int (length ws) = 2 * 2 ^ Suc n"
    and i: "2 ^ Suc n - 1 \<le> i" "i < 2 * 2 ^ Suc n - 1"
    and pre: "\<forall>m. 1 \<le> m \<and> m < M \<and> \<not> E m \<and> m \<noteq> (i - 1) div 2 \<and> \<not> anc m ((i - 1) div 2)
                \<longrightarrow> ok ws m"
  shows "\<forall>m. 1 \<le> m \<and> m < M \<and> \<not> E m
            \<longrightarrow> ok (update_one_loop ws (if i mod 2 = 0 then i - 1 else i) n) m"
proof -
  define P :: int where "P = 2 ^ n"
  define i0 where "i0 = (if i mod 2 = 0 then i - 1 else i)"
  have P: "1 \<le> P" by (simp add: P_def)
  have iP: "2 * P - 1 \<le> i" "i < 4 * P - 1" using i by (simp_all add: P_def)
  have par: "(i0 - 1) div 2 = (i - 1) div 2" unfolding i0_def by presburger
  have "2 * P - 1 \<le> i0" using iP P unfolding i0_def by presburger
  then have a1: "2 ^ Suc n - 1 \<le> i0" by (simp add: P_def)
  have "i0 + 1 < 4 * P - 1" using iP P unfolding i0_def by presburger
  then have a2: "i0 + 1 < 2 ^ Suc (Suc n) - 1" by (simp add: P_def)
  have a3: "odd i0" unfolding i0_def by presburger
  have a4: "i0 + 1 < int (length ws)" using a2 len by simp
  have a5: "\<forall>m. 1 \<le> m \<and> m < M \<and> \<not> E m \<and> \<not> anc m i0 \<longrightarrow> ok ws m"
    using pre anc_step [of _ i0] by (simp add: par)
  show ?thesis unfolding i0_def [symmetric]
    by (rule update_one_loop_repair [OF a1 a2 a3 a4 a5])
qed

lemma leaves_after_update_one_loop:
  assumes i: "i < 2 * 2 ^ Suc n - 1" and k: "2 ^ Suc n - 1 \<le> k"
  shows "rd (update_one_loop ws (if i mod 2 = 0 then i - 1 else i) n) k = rd ws k"
proof (rule update_one_loop_above)
  define P :: int where "P = 2 ^ n"
  have P: "1 \<le> P" by (simp add: P_def)
  have *: "i < 4 * P - 1" "2 * P - 1 \<le> k" using i k by (simp_all add: P_def)
  with P show "0 \<le> k" by linarith
  from * show "((if i mod 2 = 0 then i - 1 else i) - 1) div 2 < k" by presburger
qed

text \<open>A buffer that differs from a well formed tree in one leaf.\<close>

lemma ok_wr_leaf:
  assumes "ok vs m" and "m < i" and "m \<noteq> (i - 1) div 2" and "0 \<le> m"
  shows "ok (wr vs i v) m"
proof -
  have "2 * m + 1 \<noteq> i" "2 * m + 2 \<noteq> i" using assms(3) by presburger+
  then show ?thesis using assms by (simp add: ok_def rd_wr_other)
qed

lemma ok_agree:
  assumes "ok vs m" and "0 \<le> m" and "\<forall>k. 0 \<le> k \<and> k \<notin> S \<longrightarrow> rd ws k = rd vs k"
    and "m \<notin> S" and "2 * m + 1 \<notin> S" and "2 * m + 2 \<notin> S"
  shows "ok ws m"
proof -
  have "rd ws m = rd vs m" "rd ws (2 * m + 1) = rd vs (2 * m + 1)"
    "rd ws (2 * m + 2) = rd vs (2 * m + 2)"
    using assms(2-6) by simp_all
  with assms(1) show ?thesis by (simp add: ok_def)
qed

lemma child_parent: "2 * m + 1 = i \<or> 2 * m + 2 = i \<Longrightarrow> m = (i - 1) div 2" for m :: int
  by presburger

lemma one_leaf_repair:
  assumes tree: "tree_ok vs (Suc n)"
    and len: "int (length ws) = 2 * 2 ^ Suc n"
    and i: "2 ^ Suc n - 1 \<le> i" "i < 2 * 2 ^ Suc n - 1"
    and agree: "\<forall>k. 0 \<le> k \<and> k \<notin> {i} \<longrightarrow> rd ws k = rd vs k"
  shows "tree_ok (update_one_loop ws (if i mod 2 = 0 then i - 1 else i) n) (Suc n)"
proof -
  have pre: "\<forall>m. 1 \<le> m \<and> m < 2 ^ Suc n - 1 \<and> \<not> False \<and> m \<noteq> (i - 1) div 2 \<and> \<not> anc m ((i - 1) div 2)
                \<longrightarrow> ok ws m"
  proof (intro allI impI)
    fix m assume m: "1 \<le> m \<and> m < 2 ^ Suc n - 1 \<and> \<not> False \<and> m \<noteq> (i - 1) div 2 \<and> \<not> anc m ((i - 1) div 2)"
    then have "ok vs m" using tree by (simp add: tree_ok_def)
    moreover have "m \<notin> {i}" using m i by simp
    moreover have "2 * m + 1 \<notin> {i}" "2 * m + 2 \<notin> {i}" using m child_parent [of m i] by auto
    ultimately show "ok ws m" using agree m by (intro ok_agree [of vs m "{i}" ws]) simp_all
  qed
  have "\<forall>m. 1 \<le> m \<and> m < 2 ^ Suc n - 1 \<and> \<not> False
            \<longrightarrow> ok (update_one_loop ws (if i mod 2 = 0 then i - 1 else i) n) m"
    by (rule repair_after_leaf_change [OF len i pre])
  then show ?thesis by (simp add: tree_ok_def)
qed

lemma two_leaves_repair:
  assumes tree: "tree_ok vs (Suc n)"
    and len: "int (length ws) = 2 * 2 ^ Suc n"
    and i1: "2 ^ Suc n - 1 \<le> i1" "i1 < 2 * 2 ^ Suc n - 1"
    and i2: "2 ^ Suc n - 1 \<le> i2" "i2 < 2 * 2 ^ Suc n - 1"
    and agree: "\<forall>k. 0 \<le> k \<and> k \<notin> {i1, i2} \<longrightarrow> rd ws k = rd vs k"
  shows "tree_ok (update_one_loop (update_one_loop ws (if i1 mod 2 = 0 then i1 - 1 else i1) n)
           (if i2 mod 2 = 0 then i2 - 1 else i2) n) (Suc n)"
proof -
  define E where "E = (\<lambda>m. m = (i2 - 1) div 2 \<or> anc m ((i2 - 1) div 2))"
  define ws1 where "ws1 = update_one_loop ws (if i1 mod 2 = 0 then i1 - 1 else i1) n"
  have pre: "\<forall>m. 1 \<le> m \<and> m < 2 ^ Suc n - 1 \<and> \<not> E m \<and> m \<noteq> (i1 - 1) div 2 \<and> \<not> anc m ((i1 - 1) div 2)
                \<longrightarrow> ok ws m"
  proof (intro allI impI)
    fix m assume m: "1 \<le> m \<and> m < 2 ^ Suc n - 1 \<and> \<not> E m \<and> m \<noteq> (i1 - 1) div 2 \<and> \<not> anc m ((i1 - 1) div 2)"
    then have "ok vs m" using tree by (simp add: tree_ok_def)
    moreover have "m \<notin> {i1, i2}" using m i1 i2 by simp
    moreover have "2 * m + 1 \<notin> {i1, i2}" "2 * m + 2 \<notin> {i1, i2}"
      using m child_parent [of m i1] child_parent [of m i2] by (auto simp: E_def)
    ultimately show "ok ws m" using agree m by (intro ok_agree [of vs m "{i1, i2}" ws]) simp_all
  qed
  have post1: "\<forall>m. 1 \<le> m \<and> m < 2 ^ Suc n - 1 \<and> \<not> E m \<longrightarrow> ok ws1 m"
    unfolding ws1_def by (rule repair_after_leaf_change [OF len i1 pre])
  have len1: "int (length ws1) = 2 * 2 ^ Suc n" using len by (simp add: ws1_def length_update_one_loop)
  have pre2: "\<forall>m. 1 \<le> m \<and> m < 2 ^ Suc n - 1 \<and> \<not> False \<and> m \<noteq> (i2 - 1) div 2 \<and> \<not> anc m ((i2 - 1) div 2)
                \<longrightarrow> ok ws1 m"
    using post1 by (simp add: E_def)
  have "\<forall>m. 1 \<le> m \<and> m < 2 ^ Suc n - 1 \<and> \<not> False
            \<longrightarrow> ok (update_one_loop ws1 (if i2 mod 2 = 0 then i2 - 1 else i2) n) m"
    by (rule repair_after_leaf_change [OF len1 i2 pre2])
  then show ?thesis by (simp add: tree_ok_def ws1_def)
qed

lemma heap_inv_alt:
  "heap_inv h \<longleftrightarrow>
     1 \<le> min_levels h \<and> min_levels h \<le> levels h \<and>
     0 \<le> count h \<and> count h \<le> 2 ^ levels h \<and>
     int (length (vals h)) = 2 * 2 ^ levels h \<and>
     int (length (references h)) = 2 ^ levels h \<and>
     tree_ok (vals h) (levels h) \<and>
     (\<forall>p. count h \<le> p \<and> p < 2 ^ levels h \<longrightarrow> leaf h p = PInf)"
  by (auto simp: heap_inv_def tree_ok_def ok_def)

lemma update_one_fields:
  "vals (update_one g i) = update_one_loop (vals g) (if i mod 2 = 0 then i - 1 else i) (levels g - 1)"
  "count (update_one g i) = count g"
  "levels (update_one g i) = levels g"
  "min_levels (update_one g i) = min_levels g"
  "references (update_one g i) = references g"
  "popped_ref (update_one g i) = popped_ref g"
  "BinaryHeap.more (update_one g i) = BinaryHeap.more g"
  by (simp_all add: update_one_def Let_def)

lemma leaf_update_one:
  assumes "1 \<le> levels g" and "i < 2 * 2 ^ levels g - 1" and "0 \<le> p"
  shows "leaf (update_one g i) p = leaf g p"
proof -
  obtain n where n: "levels g = Suc n" using assms(1) by (cases "levels g") auto
  have "rd (update_one_loop (vals g) (if i mod 2 = 0 then i - 1 else i) n) (2 ^ Suc n - 1 + p)
      = rd (vals g) (2 ^ Suc n - 1 + p)"
    using assms(2,3) by (intro leaves_after_update_one_loop) (simp_all add: n)
  then show ?thesis by (simp add: leaf_def update_one_fields n)
qed

lemma heap_inv_update_one:
  assumes "1 \<le> min_levels g" and "min_levels g \<le> levels g"
    and "0 \<le> count g" and "count g \<le> 2 ^ levels g"
    and "int (length (vals g)) = 2 * 2 ^ levels g"
    and "int (length (references g)) = 2 ^ levels g"
    and "\<forall>p. count g \<le> p \<and> p < 2 ^ levels g \<longrightarrow> leaf g p = PInf"
    and "tree_ok vs (levels g)"
    and "\<forall>k. 0 \<le> k \<and> k \<notin> {i} \<longrightarrow> rd (vals g) k = rd vs k"
    and "2 ^ levels g - 1 \<le> i" and "i < 2 * 2 ^ levels g - 1"
  shows "heap_inv (update_one g i)"
proof -
  obtain n where n: "levels g = Suc n" using assms(1,2) by (cases "levels g") auto
  have t: "tree_ok (update_one_loop (vals g) (if i mod 2 = 0 then i - 1 else i) n) (Suc n)"
    using assms(5,8,9,10,11) unfolding n by (intro one_leaf_repair [where vs = vs])
  have l: "leaf (update_one g i) p = leaf g p" if "0 \<le> p" for p
    using assms(1,2,11) that by (intro leaf_update_one) simp_all
  have "\<forall>p. count g \<le> p \<and> p < 2 ^ levels g \<longrightarrow> leaf (update_one g i) p = PInf"
    using assms(3,7) l by auto
  then show ?thesis
    using assms(1-6) t
    by (simp add: heap_inv_alt update_one_fields(2-) update_one_fields(1) [of g i, unfolded n]
        length_update_one_loop n del: power_Suc)
qed

lemma heap_inv_update_one_twice:
  assumes "1 \<le> min_levels g" and "min_levels g \<le> levels g"
    and "0 \<le> count g" and "count g \<le> 2 ^ levels g"
    and "int (length (vals g)) = 2 * 2 ^ levels g"
    and "int (length (references g)) = 2 ^ levels g"
    and "\<forall>p. count g \<le> p \<and> p < 2 ^ levels g \<longrightarrow> leaf g p = PInf"
    and "tree_ok vs (levels g)"
    and "\<forall>k. 0 \<le> k \<and> k \<notin> {i1, i2} \<longrightarrow> rd (vals g) k = rd vs k"
    and "2 ^ levels g - 1 \<le> i1" and "i1 < 2 * 2 ^ levels g - 1"
    and "2 ^ levels g - 1 \<le> i2" and "i2 < 2 * 2 ^ levels g - 1"
  shows "heap_inv (update_one (update_one g i1) i2)"
proof -
  obtain n where n: "levels g = Suc n" using assms(1,2) by (cases "levels g") auto
  have t: "tree_ok (update_one_loop (update_one_loop (vals g) (if i1 mod 2 = 0 then i1 - 1 else i1) n)
      (if i2 mod 2 = 0 then i2 - 1 else i2) n) (Suc n)"
    using assms(5,8-13) unfolding n by (intro two_leaves_repair [where vs = vs])
  have l: "leaf (update_one (update_one g i1) i2) p = leaf g p" if "0 \<le> p" for p
  proof -
    have "leaf (update_one (update_one g i1) i2) p = leaf (update_one g i1) p"
      using assms(1,2,13) that by (intro leaf_update_one) (simp_all add: update_one_fields)
    also have "\<dots> = leaf g p"
      using assms(1,2,11) that by (intro leaf_update_one) simp_all
    finally show ?thesis .
  qed
  have "\<forall>p. count g \<le> p \<and> p < 2 ^ levels g \<longrightarrow> leaf (update_one (update_one g i1) i2) p = PInf"
    using assms(3,7) l by auto
  then show ?thesis
    using assms(1-6) t
    by (simp add: heap_inv_alt update_one_fields length_update_one_loop n del: power_Suc)
qed

lemma rd_replicate: "0 \<le> k \<Longrightarrow> k < int n \<Longrightarrow> rd (replicate n v) k = v"
  by (simp add: rd_def)

lemma copy_fold:
  assumes "0 \<le> a" and "a + int n \<le> int (length ws)"
  shows "length (fold (\<lambda>i vs. wr vs (a + int i) (f i)) [0..<n] ws) = length ws \<and>
         (\<forall>k. 0 \<le> k \<longrightarrow> rd (fold (\<lambda>i vs. wr vs (a + int i) (f i)) [0..<n] ws) k
              = (if a \<le> k \<and> k < a + int n then f (nat (k - a)) else rd ws k))"
  using assms(2)
proof (induction n)
  case 0
  then show ?case by auto
next
  case (Suc n)
  define us where "us = fold (\<lambda>i vs. wr vs (a + int i) (f i)) [0..<n] ws"
  have IH: "length us = length ws"
    "\<And>k. 0 \<le> k \<Longrightarrow> rd us k = (if a \<le> k \<and> k < a + int n then f (nat (k - a)) else rd ws k)"
    using Suc unfolding us_def by auto
  have step: "fold (\<lambda>i vs. wr vs (a + int i) (f i)) [0..<Suc n] ws = wr us (a + int n) (f n)"
    by (simp add: us_def)
  have inr: "0 \<le> a + int n" "a + int n < int (length us)" using assms(1) Suc.prems IH(1) by auto
  show ?case unfolding step
  proof (intro conjI allI impI)
    show "length (wr us (a + int n) (f n)) = length ws" by (simp add: length_wr IH(1))
  next
    fix k :: int assume k: "0 \<le> k"
    show "rd (wr us (a + int n) (f n)) k
        = (if a \<le> k \<and> k < a + int (Suc n) then f (nat (k - a)) else rd ws k)"
    proof (cases "k = a + int n")
      case True
      then show ?thesis using inr by (simp add: rd_wr_same)
    next
      case False
      then have "rd (wr us (a + int n) (f n)) k = rd us k" using k by (simp add: rd_wr_other)
      then show ?thesis using IH(2) [OF k] False by auto
    qed
  qed
qed

lemma update_all_fields:
  "vals (update_all g) = fold (\<lambda>level vs. update_level vs level) (rev [2..<Suc (levels g)]) (vals g)"
  "count (update_all g) = count g"
  "levels (update_all g) = levels g"
  "min_levels (update_all g) = min_levels g"
  "references (update_all g) = references g"
  "popped_ref (update_all g) = popped_ref g"
  "BinaryHeap.more (update_all g) = BinaryHeap.more g"
  by (simp_all add: update_all_def)

lemma update_all_spec:
  assumes "int (length (vals g)) = 2 * 2 ^ levels g" and "1 \<le> levels g"
  shows "length (vals (update_all g)) = length (vals g)"
    and "tree_ok (vals (update_all g)) (levels g)"
    and "0 \<le> p \<Longrightarrow> leaf (update_all g) p = leaf g p"
proof -
  have len: "2 * 2 ^ levels g - 1 \<le> int (length (vals g))" using assms(1) by simp
  have l2: "(1::nat) \<le> 2" "2 \<le> Suc (levels g)" using assms(2) by simp_all
  note spec = update_levels_down [OF len l2]
  show "length (vals (update_all g)) = length (vals g)"
    using spec by (simp add: update_all_fields)
  show "tree_ok (vals (update_all g)) (levels g)"
    using spec by (simp add: update_all_fields tree_ok_def)
  show "leaf (update_all g) p = leaf g p" if "0 \<le> p"
    using spec that by (simp add: update_all_fields leaf_def)
qed

lemma add_or_remove_level_eq:
  "add_or_remove_level h d =
     update_all (h\<lparr>
       vals := (if count h \<noteq> 0
                then fold (\<lambda>i vs. wr vs (2 ^ nat (int (levels h) + d) - 1 + int i)
                                (rd (vals h) (2 ^ levels h - 1 + int i)))
                       [0..<nat (int_min (2 ^ nat (int (levels h) + d)) (2 ^ levels h))]
                       (replicate (nat (2 ^ nat (int (levels h) + d) * 2)) PInf)
                else replicate (nat (2 ^ nat (int (levels h) + d) * 2)) PInf),
       references := (if count h \<noteq> 0
                then fold (\<lambda>i rs. wr rs (0 + int i) (rd (references h) (int i)))
                       [0..<nat (int_min (2 ^ nat (int (levels h) + d)) (2 ^ levels h))]
                       (replicate (nat (2 ^ nat (int (levels h) + d))) (- 1))
                else replicate (nat (2 ^ nat (int (levels h) + d))) (- 1)),
       levels := nat (int (levels h) + d)\<rparr>)"
  by (simp add: add_or_remove_level_def Let_def fill_malloc)

lemma add_or_remove_level_spec:
  fixes h :: "'a BinaryHeap_scheme"
  assumes L': "L' = nat (int (levels h) + d)" and pos: "1 \<le> L'"
  defines "h' \<equiv> add_or_remove_level h d"
  defines "n \<equiv> int_min (2 ^ L') (2 ^ levels h)"
  shows "levels h' = L'" and "count h' = count h" and "min_levels h' = min_levels h"
    and "BinaryHeap.more h' = BinaryHeap.more h"
    and "int (length (vals h')) = 2 * 2 ^ L'"
    and "int (length (references h')) = 2 ^ L'"
    and "tree_ok (vals h') L'"
    and "\<And>q. 0 \<le> q \<Longrightarrow> q < 2 ^ L' \<Longrightarrow>
           leaf h' q = (if count h \<noteq> 0 \<and> q < n then leaf h q else PInf)"
    and "\<And>q. 0 \<le> q \<Longrightarrow> q < 2 ^ L' \<Longrightarrow>
           rd (references h') q = (if count h \<noteq> 0 \<and> q < n then rd (references h) q else - 1)"
proof -
  define P :: int where "P = 2 ^ L'"
  have P: "1 \<le> P" by (simp add: P_def)
  have n: "0 \<le> n" "n \<le> P" by (simp_all add: n_def int_min_def P_def)
  define V0 where "V0 = replicate (nat (P * 2)) PInf"
  define R0 where "R0 = replicate (nat P) (- 1 :: int)"
  define V where "V = (if count h \<noteq> 0
      then fold (\<lambda>i vs. wr vs (P - 1 + int i) (rd (vals h) (2 ^ levels h - 1 + int i))) [0..<nat n] V0
      else V0)"
  define R where "R = (if count h \<noteq> 0
      then fold (\<lambda>i rs. wr rs (0 + int i) (rd (references h) (int i))) [0..<nat n] R0
      else R0)"
  define g where "g = h\<lparr>vals := V, references := R, levels := L'\<rparr>"
  have h': "h' = update_all g"
    unfolding h'_def g_def V_def R_def V0_def R0_def n_def P_def L'
    by (rule add_or_remove_level_eq)
  have lenV0: "int (length V0) = 2 * P" using P by (simp add: V0_def)
  have lenR0: "int (length R0) = P" using P by (simp add: R0_def)
  have cV: "length (fold (\<lambda>i vs. wr vs (P - 1 + int i) (rd (vals h) (2 ^ levels h - 1 + int i))) [0..<nat n] V0) = length V0 \<and>
         (\<forall>k. 0 \<le> k \<longrightarrow> rd (fold (\<lambda>i vs. wr vs (P - 1 + int i) (rd (vals h) (2 ^ levels h - 1 + int i))) [0..<nat n] V0) k
              = (if P - 1 \<le> k \<and> k < P - 1 + int (nat n) then rd (vals h) (2 ^ levels h - 1 + int (nat (k - (P - 1)))) else rd V0 k))"
    using P n lenV0 by (intro copy_fold) simp_all
  have cR: "length (fold (\<lambda>i rs. wr rs (0 + int i) (rd (references h) (int i))) [0..<nat n] R0) = length R0 \<and>
         (\<forall>k. 0 \<le> k \<longrightarrow> rd (fold (\<lambda>i rs. wr rs (0 + int i) (rd (references h) (int i))) [0..<nat n] R0) k
              = (if 0 \<le> k \<and> k < 0 + int (nat n) then rd (references h) (int (nat (k - 0))) else rd R0 k))"
    using P n lenR0 by (intro copy_fold) simp_all
  have lenV: "int (length V) = 2 * P" using cV lenV0 by (simp add: V_def)
  have lenR: "int (length R) = P" using cR lenR0 by (simp add: R_def)
  have rdV: "rd V (P - 1 + q) = (if count h \<noteq> 0 \<and> q < n then rd (vals h) (2 ^ levels h - 1 + q) else PInf)"
    if q: "0 \<le> q" "q < P" for q
  proof -
    have k: "0 \<le> P - 1 + q" "P - 1 + q < int (nat (P * 2))" using P q by simp_all
    have v0: "rd V0 (P - 1 + q) = PInf" unfolding V0_def by (rule rd_replicate [OF k])
    show ?thesis
    proof (cases "count h \<noteq> 0")
      case True
      then have "rd V (P - 1 + q) = (if P - 1 \<le> P - 1 + q \<and> P - 1 + q < P - 1 + int (nat n)
          then rd (vals h) (2 ^ levels h - 1 + int (nat (P - 1 + q - (P - 1)))) else rd V0 (P - 1 + q))"
        using cV k(1) unfolding V_def by simp
      then show ?thesis using True q n v0 by simp
    next
      case False
      then show ?thesis using v0 by (simp add: V_def)
    qed
  qed
  have rdR: "rd R q = (if count h \<noteq> 0 \<and> q < n then rd (references h) q else - 1)"
    if q: "0 \<le> q" "q < P" for q
  proof -
    have k: "0 \<le> q" "q < int (nat P)" using P q by simp_all
    have r0: "rd R0 q = - 1" unfolding R0_def by (rule rd_replicate [OF k])
    show ?thesis
    proof (cases "count h \<noteq> 0")
      case True
      then have "rd R q = (if 0 \<le> q \<and> q < 0 + int (nat n)
          then rd (references h) (int (nat (q - 0))) else rd R0 q)"
        using cR k(1) unfolding R_def by simp
      then show ?thesis using True q n r0 by simp
    next
      case False
      then show ?thesis using r0 by (simp add: R_def)
    qed
  qed
  have gl: "levels g = L'" "vals g = V" "references g = R" "count g = count h"
    "min_levels g = min_levels h" "BinaryHeap.more g = BinaryHeap.more h"
    by (simp_all add: g_def)
  have glen: "int (length (vals g)) = 2 * 2 ^ levels g" using lenV by (simp add: gl P_def)
  have gpos: "1 \<le> levels g" using pos by (simp add: gl)
  note ua = update_all_spec [OF glen gpos]
  show "levels h' = L'" "count h' = count h" "min_levels h' = min_levels h"
    "BinaryHeap.more h' = BinaryHeap.more h"
    by (simp_all add: h' update_all_fields gl)
  show "int (length (vals h')) = 2 * 2 ^ L'" using ua(1) lenV by (simp add: h' gl P_def)
  show "int (length (references h')) = 2 ^ L'" using lenR by (simp add: h' update_all_fields gl P_def)
  show "tree_ok (vals h') L'" using ua(2) by (simp add: h' gl)
  show "leaf h' q = (if count h \<noteq> 0 \<and> q < n then leaf h q else PInf)"
    if "0 \<le> q" "q < 2 ^ L'" for q
  proof -
    have "leaf h' q = leaf g q" using ua(3) [OF that(1)] by (simp add: h')
    also have "\<dots> = rd V (P - 1 + q)" by (simp add: leaf_def gl P_def)
    finally show ?thesis using rdV that by (simp add: P_def leaf_def)
  qed
  show "rd (references h') q = (if count h \<noteq> 0 \<and> q < n then rd (references h) q else - 1)"
    if "0 \<le> q" "q < 2 ^ L'" for q
    using rdR that by (simp add: h' update_all_fields gl P_def)
qed

lemma heap_inv_add_or_remove_level:
  fixes h :: "'a BinaryHeap_scheme"
  assumes "1 \<le> min_levels h" and L': "L' = nat (int (levels h) + d)" and "min_levels h \<le> L'"
    and "0 \<le> count h" and "count h \<le> 2 ^ L'" and "count h \<le> 2 ^ levels h"
    and empty: "\<forall>p. count h \<le> p \<and> p < 2 ^ levels h \<longrightarrow> leaf h p = PInf"
  shows "heap_inv (add_or_remove_level h d)"
    and "levels (add_or_remove_level h d) = L'"
    and "count (add_or_remove_level h d) = count h"
    and "min_levels (add_or_remove_level h d) = min_levels h"
    and "BinaryHeap.more (add_or_remove_level h d) = BinaryHeap.more h"
    and "\<And>q. 0 \<le> q \<Longrightarrow> q < 2 ^ L' \<Longrightarrow>
           leaf (add_or_remove_level h d) q = (if q < count h then leaf h q else PInf)"
    and "\<And>q. 0 \<le> q \<Longrightarrow> q < count h \<Longrightarrow>
           rd (references (add_or_remove_level h d)) q = rd (references h) q"
proof -
  have pos: "1 \<le> L'" using assms(1,3) by simp
  note spec = add_or_remove_level_spec [OF L' pos]
  define n where "n = int_min (2 ^ L') (2 ^ levels h)"
  have n: "count h \<le> n" "n \<le> 2 ^ levels h" using assms(5,6) by (simp_all add: n_def int_min_def)
  show lf: "leaf (add_or_remove_level h d) q = (if q < count h then leaf h q else PInf)"
    if q: "0 \<le> q" "q < 2 ^ L'" for q
  proof -
    have "leaf (add_or_remove_level h d) q = (if count h \<noteq> 0 \<and> q < n then leaf h q else PInf)"
      using spec(8) [OF q] by (simp add: n_def)
    moreover have "leaf h q = PInf" if "count h \<le> q" "q < n" using empty that n by auto
    ultimately show ?thesis using q n assms(4) by auto
  qed
  show "rd (references (add_or_remove_level h d)) q = rd (references h) q"
    if q: "0 \<le> q" "q < count h" for q
  proof -
    have "q < 2 ^ L'" using q assms(5) by simp
    then show ?thesis using spec(9) [OF q(1)] q n by (auto simp: n_def)
  qed
  show "levels (add_or_remove_level h d) = L'" "count (add_or_remove_level h d) = count h"
    "min_levels (add_or_remove_level h d) = min_levels h"
    "BinaryHeap.more (add_or_remove_level h d) = BinaryHeap.more h"
    by (rule spec)+
  have "\<forall>p. count h \<le> p \<and> p < 2 ^ L' \<longrightarrow> leaf (add_or_remove_level h d) p = PInf"
    using lf assms(4) by auto
  then show "heap_inv (add_or_remove_level h d)"
    using assms(1,3,4,5) spec(1-7) by (simp add: heap_inv_alt)
qed

lemma tree_ok_replicate: "tree_ok (replicate (nat (2 * 2 ^ L)) PInf) L"
proof -
  have "rd (replicate (nat (2 * 2 ^ L)) PInf) k = PInf" if "0 \<le> k" "k < 2 * 2 ^ L" for k
    using that by (intro rd_replicate) simp_all
  then show ?thesis by (simp add: tree_ok_def ok_def)
qed

lemma BinaryHeap_reset_fields:
  "vals (BinaryHeap_reset g) = fill (vals g) (2 ^ levels g * 2) PInf"
  "count (BinaryHeap_reset g) = count g"
  "levels (BinaryHeap_reset g) = levels g"
  "min_levels (BinaryHeap_reset g) = min_levels g"
  "references (BinaryHeap_reset g) = references g"
  "popped_ref (BinaryHeap_reset g) = popped_ref g"
  "BinaryHeap.more (BinaryHeap_reset g) = BinaryHeap.more g"
  by (simp_all add: BinaryHeap_reset_def Let_def)

lemma heap_inv_reset:
  assumes "1 \<le> min_levels g" and "min_levels g \<le> levels g"
    and "0 \<le> count g" and "count g \<le> 2 ^ levels g"
    and "int (length (vals g)) = 2 * 2 ^ levels g"
    and "int (length (references g)) = 2 ^ levels g"
  shows "heap_inv (BinaryHeap_reset g)"
proof -
  have v: "vals (BinaryHeap_reset g) = replicate (nat (2 * 2 ^ levels g)) PInf"
    using assms(5) by (simp add: BinaryHeap_reset_fields fill_all mult.commute)
  have "leaf (BinaryHeap_reset g) p = PInf" if "0 \<le> p" "p < 2 ^ levels g" for p
  proof -
    have "(1::int) \<le> 2 ^ levels g" by simp
    with that have "0 \<le> 2 ^ levels g - 1 + p" "2 ^ levels g - 1 + p < int (nat (2 * 2 ^ levels g))"
      by simp_all
    then show ?thesis unfolding leaf_def BinaryHeap_reset_fields(3) v by (rule rd_replicate)
  qed
  then have "\<forall>p. count g \<le> p \<and> p < 2 ^ levels g \<longrightarrow> leaf (BinaryHeap_reset g) p = PInf"
    using assms(3) by auto
  then show ?thesis
    using assms tree_ok_replicate [of "levels g"]
    by (simp add: heap_inv_alt BinaryHeap_reset_fields(2-) v)
qed

lemma calc_levels_ge: "l \<le> calc_levels c l"
proof (induction c l rule: calc_levels.induct)
  case (1 c l)
  show ?case
  proof (cases "2 ^ l < c")
    case True
    then have "l + 1 \<le> calc_levels c (l + 1)" using 1 by simp
    then show ?thesis using True by (subst calc_levels.simps) simp
  next
    case False
    then show ?thesis by (subst calc_levels.simps) simp
  qed
qed

lemma calc_levels_pos: "2 \<le> c \<Longrightarrow> 1 \<le> calc_levels c 0"
  using calc_levels_ge [of 1 c] by (subst calc_levels.simps) simp

lemma BinaryHeap_init_eq:
  "BinaryHeap_init reset self c uv ur =
     reset (self\<lparr>min_levels := calc_levels c 0, levels := calc_levels c 0, count := 0,
                 vals := malloc (2 * 2 ^ calc_levels c 0) uv,
                 references := malloc (2 ^ calc_levels c 0) ur\<rparr>)"
  by (simp add: BinaryHeap_init_def Let_def)

lemma heap_inv_init:
  assumes "2 \<le> c"
  shows "heap_inv (BinaryHeap_init BinaryHeap_reset self c uv ur)"
  unfolding BinaryHeap_init_eq
  using calc_levels_pos [OF assms]
  by (intro heap_inv_reset) (simp_all add: length_malloc)

lemma heap_inv_new: "2 \<le> c \<Longrightarrow> heap_inv (BinaryHeap_new c uv ur)"
  unfolding BinaryHeap_new_def by (rule heap_inv_init)

lemma push_fast_spec:
  fixes h :: "'a BinaryHeap_scheme" and v :: val and ref :: int
  assumes inv: "heap_inv h"
  defines "h' \<equiv> snd (BinaryHeap_push_fast h v ref)"
  shows "fst (BinaryHeap_push_fast h v ref) = count h"
    and "heap_inv h'"
    and "count h' = count h + 1"
    and "min_levels h' = min_levels h"
    and "BinaryHeap.more h' = BinaryHeap.more h"
    and "\<And>q. 0 \<le> q \<Longrightarrow> q < 2 ^ levels h' \<Longrightarrow>
           leaf h' q = (if q = count h then v else if q < count h then leaf h q else PInf)"
    and "\<And>q. 0 \<le> q \<Longrightarrow> q \<le> count h \<Longrightarrow>
           rd (references h') q = (if q = count h then ref else rd (references h) q)"
proof -
  define g where "g = (if count h \<ge> 2 ^ levels h then add_or_remove_level h 1 else h)"
  define i where "i = 2 ^ levels g - 1 + count h"
  define g2 where "g2 = g\<lparr>vals := wr (vals g) i v, references := wr (references g) (count h) ref,
      count := count g + 1\<rparr>"
  note I = inv [unfolded heap_inv_alt]
  have G: "heap_inv g \<and> count g = count h \<and> count h < 2 ^ levels g \<and> min_levels g = min_levels h \<and>
      BinaryHeap.more g = BinaryHeap.more h \<and>
      (\<forall>q. 0 \<le> q \<and> q < 2 ^ levels g \<longrightarrow> leaf g q = (if q < count h then leaf h q else PInf)) \<and>
      (\<forall>q. 0 \<le> q \<and> q < count h \<longrightarrow> rd (references g) q = rd (references h) q) \<and>
      levels g = (if count h \<ge> 2 ^ levels h then levels h + 1 else levels h)"
  proof (cases "count h \<ge> 2 ^ levels h")
    case True
    have L': "levels h + 1 = nat (int (levels h) + 1)" by simp
    have a: "min_levels h \<le> levels h + 1" "count h \<le> 2 ^ (levels h + 1)" using I by simp_all
    have e: "\<forall>p. count h \<le> p \<and> p < 2 ^ levels h \<longrightarrow> leaf h p = PInf" using I by blast
    note s = heap_inv_add_or_remove_level [of h, OF _ L' a(1) _ a(2) _ e]
    have c: "1 \<le> min_levels h" "0 \<le> count h" "count h \<le> 2 ^ levels h" using I by simp_all
    have P0: "(1::int) \<le> 2 ^ levels h" by simp
    have "count h < 2 * 2 ^ levels h" using c(3) P0 by linarith
    then have "count h < 2 ^ (levels h + 1)" by simp
    then show ?thesis using True s(1) [OF c] s(2) [OF c] s(3) [OF c] s(4) [OF c] s(5) [OF c]
        s(6) [OF c] s(7) [OF c]
      by (simp add: g_def)
  next
    case False
    then show ?thesis using inv I by (auto simp add: g_def)
  qed
  have Ginv: "heap_inv g" and Gcount: "count g = count h" and Glt: "count h < 2 ^ levels g"
    and Gmin: "min_levels g = min_levels h" and Gmore: "BinaryHeap.more g = BinaryHeap.more h"
    and Gleaf: "\<And>q. 0 \<le> q \<Longrightarrow> q < 2 ^ levels g \<Longrightarrow>
           leaf g q = (if q < count h then leaf h q else PInf)"
    and Gref: "\<And>q. 0 \<le> q \<Longrightarrow> q < count h \<Longrightarrow> rd (references g) q = rd (references h) q"
    and Glev: "levels g = (if count h \<ge> 2 ^ levels h then levels h + 1 else levels h)"
    using G by blast+
  have c0: "0 \<le> count h" using I by blast
  have eq: "BinaryHeap_push_fast h v ref = (count h, update_one g2 i)"
  proof (cases "count h \<ge> 2 ^ levels h")
    case True
    then have "levels (add_or_remove_level h 1) = levels h + 1" using Glev by (simp add: g_def)
    then show ?thesis using True
      by (simp add: BinaryHeap_push_fast_def Let_def g_def g2_def i_def)
  next
    case False
    then show ?thesis
      by (simp add: BinaryHeap_push_fast_def Let_def g_def g2_def i_def)
  qed
  show "fst (BinaryHeap_push_fast h v ref) = count h" by (simp add: eq)
  have h': "h' = update_one g2 i" by (simp add: h'_def eq)
  note IG = Ginv [unfolded heap_inv_alt]
  have P: "(1::int) \<le> 2 ^ levels g" by simp
  have i: "2 ^ levels g - 1 \<le> i" "i < 2 * 2 ^ levels g - 1" "0 \<le> i"
    using Glt c0 P unfolding i_def by linarith+
  have g2f: "levels g2 = levels g" "min_levels g2 = min_levels g" "count g2 = count h + 1"
    "vals g2 = wr (vals g) i v" "references g2 = wr (references g) (count h) ref"
    "BinaryHeap.more g2 = BinaryHeap.more g"
    using Gcount by (simp_all add: g2_def)
  have leaf2: "leaf g2 q = (if q = count h then v else leaf g q)" if "0 \<le> q" for q
  proof (cases "q = count h")
    case True
    have "rd (wr (vals g) i v) i = v" using i IG by (intro rd_wr_same) simp_all
    then show ?thesis using True by (simp add: leaf_def g2f i_def)
  next
    case False
    then have "i \<noteq> 2 ^ levels g - 1 + q" by (simp add: i_def)
    moreover have "0 \<le> 2 ^ levels g - 1 + q" using that P by linarith
    ultimately have "rd (wr (vals g) i v) (2 ^ levels g - 1 + q) = rd (vals g) (2 ^ levels g - 1 + q)"
      by (rule rd_wr_other)
    then show ?thesis using False by (simp add: leaf_def g2f)
  qed
  have agree: "\<forall>k. 0 \<le> k \<and> k \<notin> {i} \<longrightarrow> rd (vals g2) k = rd (vals g) k"
    by (simp add: g2f rd_wr_other)
  have empt: "\<forall>p. count g2 \<le> p \<and> p < 2 ^ levels g2 \<longrightarrow> leaf g2 p = PInf"
  proof (intro allI impI)
    fix p assume p: "count g2 \<le> p \<and> p < 2 ^ levels g2"
    then have "0 \<le> p" "p \<noteq> count h" "\<not> p < count h" "p < 2 ^ levels g" using c0 by (simp_all add: g2f)
    then show "leaf g2 p = PInf" using leaf2 [of p] Gleaf [of p] by simp
  qed
  have sh: "1 \<le> min_levels g2" "min_levels g2 \<le> levels g2" "0 \<le> count g2"
    "count g2 \<le> 2 ^ levels g2" "int (length (vals g2)) = 2 * 2 ^ levels g2"
    "int (length (references g2)) = 2 ^ levels g2" "tree_ok (vals g) (levels g2)"
    "2 ^ levels g2 - 1 \<le> i" "i < 2 * 2 ^ levels g2 - 1"
    using IG Glt c0 i by (simp_all add: g2f length_wr)
  show "heap_inv h'" unfolding h'
    by (rule heap_inv_update_one [OF sh(1-6) empt sh(7) agree sh(8,9)])
  show "count h' = count h + 1" "min_levels h' = min_levels h"
    "BinaryHeap.more h' = BinaryHeap.more h"
    using Gmin Gmore by (simp_all add: h' update_one_fields g2f)
  show "leaf h' q = (if q = count h then v else if q < count h then leaf h q else PInf)"
    if q: "0 \<le> q" "q < 2 ^ levels h'" for q
  proof -
    have "leaf h' q = leaf g2 q" unfolding h'
      using sh(1,2,9) q(1) by (intro leaf_update_one) simp_all
    moreover have "q < 2 ^ levels g" using q(2) by (simp add: h' update_one_fields g2f)
    ultimately show ?thesis using leaf2 [OF q(1)] Gleaf [OF q(1)] by simp
  qed
  show "rd (references h') q = (if q = count h then ref else rd (references h) q)"
    if q: "0 \<le> q" "q \<le> count h" for q
  proof (cases "q = count h")
    case True
    have "rd (wr (references g) (count h) ref) (count h) = ref"
      using IG Glt c0 by (intro rd_wr_same) simp_all
    then show ?thesis using True by (simp add: h' update_one_fields g2f)
  next
    case False
    then have "rd (wr (references g) (count h) ref) q = rd (references g) q"
      using q by (intro rd_wr_other) simp_all
    moreover have "q < count h" using False q by simp
    ultimately show ?thesis using False Gref [OF q(1)] by (simp add: h' update_one_fields g2f)
  qed
qed

subsection \<open>Removal and pop\<close>

lemma shl1_levels: "2 \<le> L \<Longrightarrow> shl1 (int L - 2) = 2 ^ (L - 2)"
proof -
  assume "2 \<le> L"
  then have "nat (int L - 2) = L - 2" "0 \<le> int L - 2" by simp_all
  then show ?thesis by (simp add: shl1_def)
qed

lemma BinaryHeap_remove_eq:
  "BinaryHeap_remove h i1 =
     (let g = h\<lparr>vals := wr (wr (vals h) i1 (rd (vals h) (2 ^ levels h - 1 + count h - 1)))
                           (2 ^ levels h - 1 + count h - 1) PInf,
                 references := wr (references h) (i1 - (2 ^ levels h - 1))
                                 (rd (references h) (count h - 1)),
                 count := count h - 1\<rparr>
      in if levels h > min_levels h \<and> count h - 1 < shl1 (int (levels h) - 2)
         then add_or_remove_level g (- 1)
         else update_one (update_one g i1) (2 ^ levels h - 1 + count h - 1))"
  by (simp add: BinaryHeap_remove_def Let_def)

lemma remove_spec:
  fixes h :: "'a BinaryHeap_scheme" and r1 :: int
  assumes inv: "heap_inv h" and r1: "0 \<le> r1" "r1 < count h"
  defines "h' \<equiv> BinaryHeap_remove h (2 ^ levels h - 1 + r1)"
  shows "heap_inv h'"
    and "count h' = count h - 1"
    and "min_levels h' = min_levels h"
    and "BinaryHeap.more h' = BinaryHeap.more h"
    and "\<And>q. 0 \<le> q \<Longrightarrow> q < 2 ^ levels h' \<Longrightarrow>
           leaf h' q = (if q < count h - 1 then (if q = r1 then leaf h (count h - 1) else leaf h q)
                        else PInf)"
    and "\<And>q. 0 \<le> q \<Longrightarrow> q < count h - 1 \<Longrightarrow>
           rd (references h') q = (if q = r1 then rd (references h) (count h - 1)
                                   else rd (references h) q)"
proof -
  define L where "L = levels h"
  define P :: int where "P = 2 ^ L"
  define r2 where "r2 = count h - 1"
  define i1 where "i1 = P - 1 + r1"
  define i2 where "i2 = P - 1 + r2"
  define V where "V = wr (wr (vals h) i1 (rd (vals h) i2)) i2 PInf"
  define R where "R = wr (references h) r1 (rd (references h) r2)"
  define g where "g = h\<lparr>vals := V, references := R, count := r2\<rparr>"
  note I = inv [unfolded heap_inv_alt, folded L_def, folded P_def]
  have P: "1 \<le> P" by (simp add: P_def)
  have cnt: "count h \<le> P" "1 \<le> min_levels h" "min_levels h \<le> L" "int (length (vals h)) = 2 * P"
    "int (length (references h)) = P" "tree_ok (vals h) L"
    using I by simp_all
  have emp: "leaf h p = PInf" if "count h \<le> p" "p < P" for p using I that by blast
  have r: "0 \<le> r1" "r1 \<le> r2" "0 \<le> r2" "r2 < P" "r2 < count h"
    using r1 cnt(1) by (simp_all add: r2_def)
  have ir: "0 \<le> i1" "i1 < 2 * P - 1" "P - 1 \<le> i1" "0 \<le> i2" "i2 < 2 * P - 1" "P - 1 \<le> i2"
    using r P unfolding i1_def i2_def by linarith+
  have gf: "levels g = L" "min_levels g = min_levels h" "count g = r2" "vals g = V"
    "references g = R" "BinaryHeap.more g = BinaryHeap.more h"
    by (simp_all add: g_def L_def)
  have lenV: "int (length V) = 2 * P" using cnt(4) by (simp add: V_def length_wr)
  have lenR: "int (length R) = P" using cnt(5) by (simp add: R_def length_wr)
  have rdV: "rd V (P - 1 + q) = (if q = r2 then PInf else if q = r1 then leaf h r2 else leaf h q)"
    if q: "0 \<le> q" for q
  proof -
    have k: "0 \<le> P - 1 + q" using P q by linarith
    show ?thesis
    proof (cases "q = r2")
      case True
      have "rd V i2 = PInf" unfolding V_def using ir cnt(4) by (intro rd_wr_same) (simp_all add: length_wr)
      then show ?thesis using True by (simp add: i2_def)
    next
      case False
      then have ne: "i2 \<noteq> P - 1 + q" by (simp add: i2_def)
      have 1: "rd V (P - 1 + q) = rd (wr (vals h) i1 (rd (vals h) i2)) (P - 1 + q)"
        unfolding V_def by (rule rd_wr_other [OF ne k])
      show ?thesis
      proof (cases "q = r1")
        case True
        have "rd (wr (vals h) i1 (rd (vals h) i2)) i1 = rd (vals h) i2"
          using ir cnt(4) by (intro rd_wr_same) simp_all
        then show ?thesis using 1 True False by (simp add: i1_def i2_def leaf_def L_def P_def)
      next
        case F2: False
        then have ne1: "i1 \<noteq> P - 1 + q" by (simp add: i1_def)
        have "rd (wr (vals h) i1 (rd (vals h) i2)) (P - 1 + q) = rd (vals h) (P - 1 + q)"
          by (rule rd_wr_other [OF ne1 k])
        then show ?thesis using 1 False F2 by (simp add: leaf_def L_def P_def)
      qed
    qed
  qed
  have leafg: "leaf g q = (if q = r2 then PInf else if q = r1 then leaf h r2 else leaf h q)"
    if "0 \<le> q" for q
    using rdV [OF that] by (simp add: leaf_def gf P_def)
  have empg: "\<forall>p. count g \<le> p \<and> p < 2 ^ levels g \<longrightarrow> leaf g p = PInf"
  proof (intro allI impI)
    fix p assume p: "count g \<le> p \<and> p < 2 ^ levels g"
    then have p': "r2 \<le> p" "p < P" "0 \<le> p" using r by (simp_all add: gf P_def)
    show "leaf g p = PInf"
    proof (cases "p = r2")
      case True
      then show ?thesis using leafg [OF p'(3)] by simp
    next
      case False
      then have "count h \<le> p" "p \<noteq> r1" using p' r by (simp_all add: r2_def)
      then show ?thesis using leafg [OF p'(3)] False emp p'(2) by simp
    qed
  qed
  have rdR: "rd R q = (if q = r1 then rd (references h) r2 else rd (references h) q)"
    if q: "0 \<le> q" for q
  proof (cases "q = r1")
    case True
    have "rd R r1 = rd (references h) r2" unfolding R_def
      using r cnt(5) by (intro rd_wr_same) simp_all
    then show ?thesis using True by simp
  next
    case False
    then have "rd R q = rd (references h) q" unfolding R_def using q by (intro rd_wr_other) simp_all
    then show ?thesis using False by simp
  qed
  have eq: "h' = (if L > min_levels h \<and> r2 < 2 ^ (L - 2)
         then add_or_remove_level g (- 1) else update_one (update_one g i1) i2)"
  proof (cases "min_levels h < levels h")
    case True
    then have "2 \<le> levels h" using cnt(2) by simp
    then have sh: "shl1 (int (levels h) - 2) = 2 ^ (levels h - 2)" by (rule shl1_levels)
    show ?thesis
      unfolding h'_def BinaryHeap_remove_eq g_def V_def R_def i1_def i2_def r2_def P_def L_def Let_def sh
      by (simp add: algebra_simps)
  next
    case False
    then show ?thesis
      unfolding h'_def BinaryHeap_remove_eq g_def V_def R_def i1_def i2_def r2_def P_def L_def Let_def
      by (simp add: algebra_simps)
  qed
  have big: "heap_inv h' \<and> count h' = count h - 1 \<and> min_levels h' = min_levels h \<and>
      BinaryHeap.more h' = BinaryHeap.more h \<and>
      (\<forall>q. 0 \<le> q \<and> q < 2 ^ levels h' \<longrightarrow>
           leaf h' q = (if q < r2 then (if q = r1 then leaf h r2 else leaf h q) else PInf)) \<and>
      (\<forall>q. 0 \<le> q \<and> q < r2 \<longrightarrow>
           rd (references h') q = (if q = r1 then rd (references h) r2 else rd (references h) q))"
    proof (cases "L > min_levels h \<and> r2 < 2 ^ (L - 2)")
      case True
      then have h': "h' = add_or_remove_level g (- 1)" unfolding eq by auto
      have L2: "2 \<le> L" using True cnt(2) by simp
      have L': "L - 1 = nat (int (levels g) + - 1)" using L2 by (simp add: gf)
      have pm: "(2::int) ^ (L - 2) \<le> 2 ^ (L - 1)" by (rule pow2_mono) simp
      have "r2 < 2 ^ (L - 2)" using True by blast
      with pm have "r2 \<le> 2 ^ (L - 1)" by linarith
      then have a: "count g \<le> 2 ^ (L - 1)" by (simp only: gf)
      have b: "1 \<le> min_levels g" "min_levels g \<le> L - 1" "0 \<le> count g" "count g \<le> 2 ^ levels g"
        using cnt(2) True r by (auto simp add: gf P_def)
      note s = heap_inv_add_or_remove_level [OF b(1) L' b(2) b(3) a b(4) empg]
      have lp: "(2::int) ^ (L - 1) \<le> P" unfolding P_def by (rule pow2_mono) simp
      have "leaf h' q = (if q < r2 then (if q = r1 then leaf h r2 else leaf h q) else PInf)"
        if q: "0 \<le> q" "q < 2 ^ levels h'" for q
      proof -
        have "q < 2 ^ (L - 1)" using q(2) s(2) by (simp add: h')
        then have "leaf h' q = (if q < r2 then leaf g q else PInf)"
          using s(6) [OF q(1)] by (simp add: h' gf)
        then show ?thesis using leafg [OF q(1)] by auto
      qed
      moreover have "rd (references h') q = (if q = r1 then rd (references h) r2 else rd (references h) q)"
        if q: "0 \<le> q" "q < r2" for q
        using s(7) [of q] q rdR [OF q(1)] by (simp add: h' gf)
      ultimately show ?thesis using s(1,3,4,5) by (simp add: h' gf r2_def)
    next
      case False
      then have h': "h' = update_one (update_one g i1) i2" unfolding eq by auto
      have agree: "\<forall>k. 0 \<le> k \<and> k \<notin> {i1, i2} \<longrightarrow> rd (vals g) k = rd (vals h) k"
        by (simp add: gf V_def rd_wr_other)
      have sh: "1 \<le> min_levels g" "min_levels g \<le> levels g" "0 \<le> count g"
        "count g \<le> 2 ^ levels g" "int (length (vals g)) = 2 * 2 ^ levels g"
        "int (length (references g)) = 2 ^ levels g" "tree_ok (vals h) (levels g)"
        "2 ^ levels g - 1 \<le> i1" "i1 < 2 * 2 ^ levels g - 1"
        "2 ^ levels g - 1 \<le> i2" "i2 < 2 * 2 ^ levels g - 1"
        using cnt r ir lenV lenR by (simp_all add: gf P_def [symmetric])
      have inv': "heap_inv h'" unfolding h'
        by (rule heap_inv_update_one_twice [OF sh(1-6) empg sh(7) agree sh(8-11)])
      have lf: "leaf h' q = leaf g q" if "0 \<le> q" for q
      proof -
        have "leaf h' q = leaf (update_one g i1) q" unfolding h'
          using sh(1,2,11) that by (intro leaf_update_one) (simp_all add: update_one_fields)
        also have "\<dots> = leaf g q" using sh(1,2,9) that by (intro leaf_update_one) simp_all
        finally show ?thesis .
      qed
      have "leaf h' q = (if q < r2 then (if q = r1 then leaf h r2 else leaf h q) else PInf)"
        if q: "0 \<le> q" "q < 2 ^ levels h'" for q
      proof (cases "q < r2")
        case True
        then show ?thesis using lf [OF q(1)] leafg [OF q(1)] by simp
      next
        case False
        then have "count g \<le> q \<and> q < 2 ^ levels g" using q(2) by (simp add: h' update_one_fields gf)
        then have "leaf g q = PInf" using empg by blast
        then show ?thesis using lf [OF q(1)] False by simp
      qed
      moreover have "rd (references h') q = (if q = r1 then rd (references h) r2 else rd (references h) q)"
        if q: "0 \<le> q" "q < r2" for q
        using rdR [OF q(1)] by (simp add: h' update_one_fields gf)
      ultimately show ?thesis using inv' by (simp add: h' update_one_fields gf r2_def)
    qed
  from big show "heap_inv h'" "count h' = count h - 1" "min_levels h' = min_levels h"
      "BinaryHeap.more h' = BinaryHeap.more h"
      "\<And>q. 0 \<le> q \<Longrightarrow> q < 2 ^ levels h' \<Longrightarrow>
           leaf h' q = (if q < count h - 1 then (if q = r1 then leaf h (count h - 1) else leaf h q)
                        else PInf)"
      "\<And>q. 0 \<le> q \<Longrightarrow> q < count h - 1 \<Longrightarrow>
           rd (references h') q = (if q = r1 then rd (references h) (count h - 1)
                                   else rd (references h) q)"
    by (simp_all add: r2_def)
qed

lemma popped_ref_add_or_remove_level [simp]:
  "popped_ref (add_or_remove_level h d) = popped_ref h"
  by (simp add: add_or_remove_level_eq update_all_fields)

lemma popped_ref_remove [simp]: "popped_ref (BinaryHeap_remove h i) = popped_ref h"
  by (simp add: BinaryHeap_remove_eq Let_def update_one_fields)

lemma pop_fast_eq:
  "pop_fast remove h =
     (to_float (leaf h (min_leaf h)),
      if to_float (leaf h (min_leaf h)) \<noteq> PInf
      then remove (h\<lparr>popped_ref := rd (references h) (min_leaf h)\<rparr>) (2 ^ levels h - 1 + min_leaf h)
      else h\<lparr>popped_ref := rd (references h) (min_leaf h)\<rparr>)"
  by (simp add: pop_fast_def Let_def min_leaf_def pick_def leaf_def)

lemma min_leaf_spec:
  assumes "heap_inv h"
  shows "0 \<le> min_leaf h" and "min_leaf h < 2 ^ levels h"
    and "leaf h (min_leaf h) = min (rd (vals h) 1) (rd (vals h) 2)"
    and "\<And>q. 0 \<le> q \<Longrightarrow> q < 2 ^ levels h \<Longrightarrow> leaf h (min_leaf h) \<le> leaf h q"
    and "\<And>q. 0 \<le> q \<Longrightarrow> q < 2 ^ levels h \<Longrightarrow> leaf h q = leaf h (min_leaf h) \<Longrightarrow> q \<le> min_leaf h"
proof -
  note I = assms [unfolded heap_inv_alt]
  obtain n where n: "levels h = Suc n" using I by (cases "levels h") auto
  define f where "f = pick (vals h) (descend (vals h) 1 n)"
  define P :: int where "P = 2 ^ n"
  have tree: "\<forall>m. 1 \<le> m \<and> m < 2 ^ (1 + n) - 1 \<longrightarrow> ok (vals h) m"
    using I by (simp add: tree_ok_def n)
  have a: "(1::nat) \<le> 1" "2 ^ 1 - 1 \<le> (1::int)" "(1::int) + 1 < 2 ^ Suc 1 - 1" by simp_all
  note d = descend_pick [OF tree a, folded f_def P_def]
  have e: "(1::int) + 1 = 2" "(1::int) + 3 = 4" by simp_all
  have d': "2 * P - 1 \<le> f \<and> f < 4 * P - 1 \<and>
      rd (vals h) f = min (rd (vals h) 1) (rd (vals h) 2) \<and>
      (\<forall>k. 2 * P - 1 \<le> k \<and> k < 4 * P - 1 \<longrightarrow>
           rd (vals h) f \<le> rd (vals h) k \<and> (rd (vals h) k = rd (vals h) f \<longrightarrow> k \<le> f))"
    by (rule d [unfolded e])
  have f1: "2 * P - 1 \<le> f" "f < 4 * P - 1" using d' by blast+
  have fv: "rd (vals h) f = min (rd (vals h) 1) (rd (vals h) 2)" using d' by blast
  have fall: "rd (vals h) f \<le> rd (vals h) k \<and> (rd (vals h) k = rd (vals h) f \<longrightarrow> k \<le> f)"
    if "2 * P - 1 \<le> k" "k < 4 * P - 1" for k
    using d' that by blast
  have ml: "min_leaf h = f - (2 * P - 1)" by (simp add: min_leaf_def f_def n P_def)
  have lf: "leaf h q = rd (vals h) (2 * P - 1 + q)" for q by (simp add: leaf_def n P_def)
  have pw: "(2::int) ^ levels h = 2 * P" by (simp add: n P_def)
  show "0 \<le> min_leaf h" "min_leaf h < 2 ^ levels h" using f1 unfolding ml pw by linarith+
  show "leaf h (min_leaf h) = min (rd (vals h) 1) (rd (vals h) 2)" using fv by (simp add: lf ml)
  show "leaf h (min_leaf h) \<le> leaf h q" if "0 \<le> q" "q < 2 ^ levels h" for q
  proof -
    have "2 * P - 1 \<le> 2 * P - 1 + q" "2 * P - 1 + q < 4 * P - 1" using that unfolding pw by linarith+
    from fall [OF this] show ?thesis by (simp add: lf ml)
  qed
  show "q \<le> min_leaf h" if "0 \<le> q" "q < 2 ^ levels h" "leaf h q = leaf h (min_leaf h)" for q
  proof -
    have "2 * P - 1 \<le> 2 * P - 1 + q" "2 * P - 1 + q < 4 * P - 1" using that unfolding pw by linarith+
    from fall [OF this] that(3) have "2 * P - 1 + q \<le> f" by (simp add: lf ml)
    then show ?thesis unfolding ml by linarith
  qed
qed

lemma min_leaf_occupied:
  assumes "heap_inv h" and "leaf h (min_leaf h) \<noteq> PInf"
  shows "min_leaf h < count h"
proof (rule ccontr)
  assume "\<not> min_leaf h < count h"
  then have "count h \<le> min_leaf h \<and> min_leaf h < 2 ^ levels h"
    using min_leaf_spec(2) [OF assms(1)] by simp
  then have "leaf h (min_leaf h) = PInf" using assms(1) unfolding heap_inv_alt by blast
  with assms(2) show False by simp
qed

lemma heap_inv_popped_ref [simp]: "heap_inv (h\<lparr>popped_ref := x\<rparr>) = heap_inv h"
  by (simp add: heap_inv_def leaf_def)

lemma leaf_popped_ref [simp]: "leaf (h\<lparr>popped_ref := x\<rparr>) q = leaf h q"
  by (simp add: leaf_def)

lemma heap_inv_cong:
  assumes "count g' = count g" and "levels g' = levels g" and "min_levels g' = min_levels g"
    and "vals g' = vals g" and "references g' = references g"
  shows "heap_inv g' = heap_inv g"
  using assms by (simp add: heap_inv_def leaf_def)

lemma removes_BinaryHeap_remove: "removes BinaryHeap_remove"
  unfolding removes_def by blast

lemma removes_FastUpdateBinaryHeap_remove: "removes FastUpdateBinaryHeap_remove"
proof -
  have "FastUpdateBinaryHeap_remove g i =
      BinaryHeap_remove (g\<lparr>crossref :=
        wr (wr (crossref g) (rd (references g) (count g - 1)) (i - (2 ^ levels g - 1)))
           (rd (references g) (i - (2 ^ levels g - 1))) (- 1)\<rparr>) i" for g i
    by (simp add: FastUpdateBinaryHeap_remove_def BinaryHeap_remove_def Let_def)
  then show ?thesis unfolding removes_def
    by (intro allI exI [where x = "g\<lparr>crossref := c\<rparr>" for g c]) simp
qed

lemma pop_spec:
  fixes h :: "'a BinaryHeap_scheme"
  assumes rm: "removes rm" and inv: "heap_inv h"
  shows "count h = 0 \<Longrightarrow> pop rm h = (Inl (IndexError ''pop from an empty heap''), h)"
    and "count h \<noteq> 0 \<Longrightarrow>
           fst (pop rm h) = Inr (to_float (leaf h (min_leaf h)), rd (references h) (min_leaf h))"
    and "heap_inv (snd (pop rm h))"
    and "lower_bound h b \<Longrightarrow> lower_bound (snd (pop rm h)) b"
    and "lower_bound h (leaf h (min_leaf h))"
proof -
  define p where "p = min_leaf h"
  define h1 where "h1 = h\<lparr>popped_ref := rd (references h) p\<rparr>"
  define i where "i = 2 ^ levels h - 1 + p"
  note ml = min_leaf_spec [OF inv, folded p_def]
  show lbv: "lower_bound h (leaf h (min_leaf h))"
    using ml(4) by (simp add: lower_bound_def p_def)
  show "pop rm h = (Inl (IndexError ''pop from an empty heap''), h)" if "count h = 0"
    using that by (simp add: pop_def)
  obtain g where g: "rm h1 i = BinaryHeap_remove g i" "count g = count h" "levels g = levels h"
    "min_levels g = min_levels h" "vals g = vals h" "references g = references h"
    "popped_ref g = popped_ref h1"
  proof -
    from rm have "\<exists>g. rm h1 i = BinaryHeap_remove g i \<and> count g = count h1 \<and>
        levels g = levels h1 \<and> min_levels g = min_levels h1 \<and> vals g = vals h1 \<and>
        references g = references h1 \<and> popped_ref g = popped_ref h1"
      unfolding removes_def by (elim allE)
    then obtain g where "rm h1 i = BinaryHeap_remove g i" "count g = count h1"
        "levels g = levels h1" "min_levels g = min_levels h1" "vals g = vals h1"
        "references g = references h1" "popped_ref g = popped_ref h1"
      by (elim exE conjE)
    then show ?thesis by (intro that) (simp_all add: h1_def)
  qed
  define t where "t \<longleftrightarrow> to_float (leaf h p) \<noteq> PInf"
  have tv: "leaf h p \<noteq> PInf" if t using that unfolding t_def by auto
  have pf: "pop_fast rm h = (to_float (leaf h p), if t then rm h1 i else h1)"
    by (simp add: pop_fast_eq p_def h1_def i_def t_def)
  have pr: "popped_ref (if t then rm h1 i else h1) = rd (references h) p"
    using g(1,7) by (simp add: h1_def)
  show "fst (pop rm h) = Inr (to_float (leaf h (min_leaf h)), rd (references h) (min_leaf h))"
    if "count h \<noteq> 0"
    using that pr unfolding pop_def pf p_def [symmetric] by simp
  have ginv: "heap_inv g" using inv heap_inv_cong [OF g(2-6)] by simp
  have gleaf: "leaf g q = leaf h q" for q by (simp add: leaf_def g)
  have snd_eq: "snd (pop rm h) =
      (if count h = 0 then h else if t then BinaryHeap_remove g i else h1)"
    unfolding pop_def pf using g(1) by simp
  have hr: "heap_inv (BinaryHeap_remove g i) \<and>
      (\<forall>b. lower_bound h b \<longrightarrow> lower_bound (BinaryHeap_remove g i) b)" if v: "leaf h p \<noteq> PInf"
  proof -
    have pc: "p < count g" using min_leaf_occupied [OF inv] v by (simp add: p_def g)
    have i': "i = 2 ^ levels g - 1 + p" by (simp add: i_def g)
    note rs = remove_spec [OF ginv ml(1) pc, folded i']
    have "lower_bound (BinaryHeap_remove g i) b" if lb: "lower_bound h b" for b
      unfolding lower_bound_def
    proof (intro allI impI)
      fix q :: int assume q: "0 \<le> q \<and> q < 2 ^ levels (BinaryHeap_remove g i)"
      note I = ginv [unfolded heap_inv_alt]
      have c: "count g \<le> 2 ^ levels h" using I by (simp add: g)
      have B: "b \<le> leaf h q'" if "0 \<le> q'" "q' < count g" for q'
        using lb that c by (simp add: lower_bound_def)
      have q0: "0 \<le> q" and q1: "q < 2 ^ levels (BinaryHeap_remove g i)" using q by simp_all
      have lq: "leaf (BinaryHeap_remove g i) q =
          (if q < count g - 1 then (if q = p then leaf g (count g - 1) else leaf g q) else PInf)"
        by (rule rs(5) [OF q0 q1])
      have b1: "b \<le> leaf g (count g - 1)" unfolding gleaf using pc ml(1) by (intro B) simp_all
      have b2: "b \<le> leaf g q" if "q < count g - 1" unfolding gleaf using that q0 by (intro B) simp_all
      show "b \<le> leaf (BinaryHeap_remove g i) q" unfolding lq using b1 b2 by simp
    qed
    then show ?thesis using rs(1) by blast
  qed
  have lb1: "lower_bound h1 b = lower_bound h b" for b by (simp add: lower_bound_def h1_def)
  have inv1: "heap_inv h1" using inv by (simp add: h1_def)
  show "heap_inv (snd (pop rm h))"
  proof (cases "count h = 0")
    case True
    then show ?thesis using inv by (simp add: snd_eq)
  next
    case False
    then show ?thesis using hr [OF tv] inv1 by (cases t) (simp_all add: snd_eq)
  qed
  show "lower_bound (snd (pop rm h)) b" if "lower_bound h b"
  proof (cases "count h = 0")
    case True
    then show ?thesis using that by (simp add: snd_eq)
  next
    case False
    then show ?thesis using hr [OF tv] that lb1 [of b] by (cases t) (simp_all add: snd_eq)
  qed
qed

subsection \<open>Sequences of calls and the indexed heap\<close>

lemma heap_inv_push: "heap_inv h \<Longrightarrow> heap_inv (snd (BinaryHeap_push h v r))"
  by (simp add: BinaryHeap_push_def push_fast_spec(2))

lemma heap_inv_reset': "heap_inv h \<Longrightarrow> heap_inv (BinaryHeap_reset h)"
  unfolding heap_inv_alt [of h] by (intro heap_inv_reset) simp_all

lemma pop_case_eq:
  "(case x of (Inr (v, r), g') \<Rightarrow> ([v], g') | (Inl e, g') \<Rightarrow> ([], g'))
     = (case fst x of Inr (v, r) \<Rightarrow> [v] | Inl e \<Rightarrow> [], snd x)"
  by (cases x; cases "fst x") auto

lemma heap_inv_call: "heap_inv h \<Longrightarrow> heap_inv (snd (BinaryHeap_call h c))"
proof (cases c)
  case (Push v r)
  assume "heap_inv h"
  then show ?thesis using Push by (simp add: heap_inv_push)
next
  case Pop
  assume inv: "heap_inv h"
  have "heap_inv (snd (BinaryHeap_pop h))"
    unfolding BinaryHeap_pop_def by (rule pop_spec(3) [OF removes_BinaryHeap_remove inv])
  then show ?thesis using Pop by (simp add: pop_case_eq)
next
  case Reset
  assume "heap_inv h"
  then show ?thesis using Reset by (simp add: heap_inv_reset')
qed

lemma heap_inv_run: "heap_inv h \<Longrightarrow> heap_inv (snd (BinaryHeap_run h cs))"
proof (induction cs arbitrary: h)
  case Nil
  then show ?case by simp
next
  case (Cons c cs)
  have "heap_inv (snd (BinaryHeap_call h c))" using Cons.prems by (rule heap_inv_call)
  then have "heap_inv (snd (BinaryHeap_run (snd (BinaryHeap_call h c)) cs))" by (rule Cons.IH)
  then show ?case by (simp add: split_def Let_def)
qed

lemma more_fields:
  fixes g g' :: FastUpdateBinaryHeap
  assumes "BinaryHeap.more g' = BinaryHeap.more g"
  shows "crossref g' = crossref g" and "max_reference g' = max_reference g"
    and "pushed g' = pushed g" and "invalid_ref g' = invalid_ref g"
  using assms by (cases g; cases g'; simp)+

lemma crossref_inv_alt:
  "crossref_inv h \<longleftrightarrow>
     length (crossref h) = nat (max_reference h + 1) \<and>
     (\<forall>p. 0 \<le> p \<and> p < count h \<longrightarrow>
        0 \<le> rd (references h) p \<and> rd (references h) p \<le> max_reference h) \<and>
     (\<forall>k. 0 \<le> k \<and> k \<le> max_reference h \<longrightarrow>
        rd (crossref h) k = - 1 \<or>
        (0 \<le> rd (crossref h) k \<and> rd (crossref h) k < count h \<and>
         rd (references h) (rd (crossref h) k) = k))"
  by (auto simp: crossref_inv_def)

lemma crossref_invI:
  assumes "length (crossref h) = nat (max_reference h + 1)"
    and "\<And>p. 0 \<le> p \<Longrightarrow> p < count h \<Longrightarrow>
           0 \<le> rd (references h) p \<and> rd (references h) p \<le> max_reference h"
    and "\<And>k. 0 \<le> k \<Longrightarrow> k \<le> max_reference h \<Longrightarrow> rd (crossref h) k \<noteq> - 1 \<Longrightarrow>
           0 \<le> rd (crossref h) k \<and> rd (crossref h) k < count h \<and>
           rd (references h) (rd (crossref h) k) = k"
  shows "crossref_inv h"
  unfolding crossref_inv_alt using assms by blast

lemma crossref_inv_cong:
  assumes "count g' = count g" and "references g' = references g"
    and "crossref g' = crossref g" and "max_reference g' = max_reference g"
  shows "crossref_inv g' = crossref_inv g"
  using assms by (simp add: crossref_inv_def)

text \<open>The overridden \<open>_remove\<close>: the two writes to the table, then the base method.\<close>

lemma FastUpdateBinaryHeap_remove_eq:
  "FastUpdateBinaryHeap_remove g i =
      BinaryHeap_remove (g\<lparr>crossref :=
        wr (wr (crossref g) (rd (references g) (count g - 1)) (i - (2 ^ levels g - 1)))
           (rd (references g) (i - (2 ^ levels g - 1))) (- 1)\<rparr>) i"
  by (simp add: FastUpdateBinaryHeap_remove_def BinaryHeap_remove_def Let_def)

lemma FastUpdateBinaryHeap_remove_spec:
  assumes inv: "heap_inv h" and cinv: "crossref_inv h" and r1: "0 \<le> r1" "r1 < count h"
  defines "h' \<equiv> FastUpdateBinaryHeap_remove h (2 ^ levels h - 1 + r1)"
  shows "heap_inv h'" and "crossref_inv h'" and "max_reference h' = max_reference h"
proof -
  define r2 where "r2 = count h - 1"
  define a where "a = rd (references h) r1"
  define b where "b = rd (references h) r2"
  define C where "C = wr (wr (crossref h) b r1) a (- 1)"
  define g where "g = h\<lparr>crossref := C\<rparr>"
  have h': "h' = BinaryHeap_remove g (2 ^ levels g - 1 + r1)"
    unfolding h'_def FastUpdateBinaryHeap_remove_eq g_def C_def a_def b_def r2_def by simp
  have ginv: "heap_inv g" using inv by (simp add: g_def heap_inv_def leaf_def)
  have gc: "count g = count h" "references g = references h" "max_reference g = max_reference h"
    "crossref g = C"
    by (simp_all add: g_def)
  have r1g: "r1 < count g" using r1 by (simp add: gc)
  note rs = remove_spec [OF ginv r1(1) r1g, folded h']
  show "heap_inv h'" by (rule rs(1))
  note mf = more_fields [OF rs(4)]
  show mr: "max_reference h' = max_reference h" using mf(2) by (simp add: gc)
  have cr: "crossref h' = C" using mf(1) by (simp add: gc)
  note CI = cinv [unfolded crossref_inv_alt]
  have len: "length (crossref h) = nat (max_reference h + 1)" using CI by blast
  have refs: "0 \<le> rd (references h) p \<and> rd (references h) p \<le> max_reference h"
    if "0 \<le> p" "p < count h" for p using CI that by blast
  have cross: "rd (crossref h) k = - 1 \<or>
        (0 \<le> rd (crossref h) k \<and> rd (crossref h) k < count h \<and>
         rd (references h) (rd (crossref h) k) = k)"
    if "0 \<le> k" "k \<le> max_reference h" for k using CI that by blast
  have r2: "0 \<le> r2" "r2 < count h" "r1 \<le> r2" using r1 by (simp_all add: r2_def)
  have ab: "0 \<le> a" "a \<le> max_reference h" "0 \<le> b" "b \<le> max_reference h"
    using refs [OF r1] refs [OF r2(1,2)] by (simp_all add: a_def b_def)
  have lenC: "length C = length (crossref h)" by (simp add: C_def length_wr)
  have Ca: "rd C a = - 1"
    unfolding C_def using ab len by (intro rd_wr_same) (simp_all add: length_wr)
  have Cb: "rd C b = r1" if "b \<noteq> a"
  proof -
    have "rd C b = rd (wr (crossref h) b r1) b" unfolding C_def using that ab by (intro rd_wr_other) simp_all
    also have "\<dots> = r1" using ab len by (intro rd_wr_same) simp_all
    finally show ?thesis .
  qed
  have Ck: "rd C k = rd (crossref h) k" if "k \<noteq> a" "k \<noteq> b" "0 \<le> k" for k
  proof -
    have "rd C k = rd (wr (crossref h) b r1) k" unfolding C_def using that by (intro rd_wr_other) simp_all
    also have "\<dots> = rd (crossref h) k" using that by (intro rd_wr_other) simp_all
    finally show ?thesis .
  qed
  have refs': "rd (references h') q = (if q = r1 then b else rd (references h) q)"
    if "0 \<le> q" "q < r2" for q
    using rs(6) [of q] that by (simp add: gc r2_def b_def)
  have cnt': "count h' = r2" using rs(2) by (simp add: gc r2_def)
  show "crossref_inv h'"
  proof (rule crossref_invI)
    show "length (crossref h') = nat (max_reference h' + 1)" using len lenC by (simp add: cr mr)
  next
    fix p assume p: "0 \<le> p" "p < count h'"
    then have "p < r2" by (simp add: cnt')
    then show "0 \<le> rd (references h') p \<and> rd (references h') p \<le> max_reference h'"
      using refs' [OF p(1)] refs [OF p(1)] ab r2 by (simp add: mr)
  next
    fix k assume k: "0 \<le> k" "k \<le> max_reference h'" "rd (crossref h') k \<noteq> - 1"
    then have k': "k \<le> max_reference h" "rd C k \<noteq> - 1" by (simp_all add: mr cr)
    then have ka: "k \<noteq> a" using Ca by auto
    show "0 \<le> rd (crossref h') k \<and> rd (crossref h') k < count h' \<and>
        rd (references h') (rd (crossref h') k) = k"
    proof (cases "k = b")
      case True
      then have ba: "b \<noteq> a" using ka by simp
      have "r1 \<noteq> r2" using ba by (auto simp: a_def b_def)
      then have lt: "r1 < r2" using r2 by simp
      have "rd (references h') r1 = b" using refs' [OF r1(1) lt] by simp
      then show ?thesis using Cb [OF ba] True lt r1 by (simp add: cr cnt')
    next
      case False
      have eq: "rd C k = rd (crossref h) k" by (rule Ck [OF ka False k(1)])
      from cross [OF k(1) k'(1)] k'(2) eq
      have c: "0 \<le> rd (crossref h) k" "rd (crossref h) k < count h"
        "rd (references h) (rd (crossref h) k) = k" by auto
      define p where "p = rd (crossref h) k"
      have "p \<noteq> r1" "p \<noteq> r2" using c(3) ka False by (auto simp: p_def a_def b_def)
      then have pl: "p < r2" using c(2) by (simp add: p_def r2_def)
      have "rd (references h') p = rd (references h) p"
        using refs' [of p] c(1) pl \<open>p \<noteq> r1\<close> by (simp add: p_def)
      then show ?thesis using c pl by (simp add: cr cnt' eq p_def [symmetric])
    qed
  qed
qed

lemma fill_nat: "length p = nat n \<Longrightarrow> fill p n v = replicate (nat n) v"
  by (simp add: fill_def fill_prefix)

text \<open>Overwriting an occupied leaf in place and repairing its path.\<close>

lemma set_leaf_spec:
  fixes h :: "'a BinaryHeap_scheme" and v :: val
  assumes inv: "heap_inv h" and p: "0 \<le> p" "p < count h"
  defines "h' \<equiv> update_one (h\<lparr>vals := wr (vals h) (2 ^ levels h - 1 + p) v\<rparr>) (2 ^ levels h - 1 + p)"
  shows "heap_inv h'"
    and "\<And>q. 0 \<le> q \<Longrightarrow> leaf h' q = (if q = p then v else leaf h q)"
    and "count h' = count h" and "levels h' = levels h" and "min_levels h' = min_levels h"
    and "references h' = references h" and "BinaryHeap.more h' = BinaryHeap.more h"
    and "popped_ref h' = popped_ref h"
proof -
  define i where "i = 2 ^ levels h - 1 + p"
  define g where "g = h\<lparr>vals := wr (vals h) i v\<rparr>"
  have h': "h' = update_one g i" by (simp add: h'_def g_def i_def)
  note I = inv [unfolded heap_inv_alt]
  have P: "(1::int) \<le> 2 ^ levels h" by simp
  have c: "count h \<le> 2 ^ levels h" using I by blast
  have i: "2 ^ levels h - 1 \<le> i" "i < 2 * 2 ^ levels h - 1" "0 \<le> i"
    using p c P unfolding i_def by linarith+
  have gf: "levels g = levels h" "min_levels g = min_levels h" "count g = count h"
    "vals g = wr (vals h) i v" "references g = references h"
    "BinaryHeap.more g = BinaryHeap.more h" "popped_ref g = popped_ref h"
    by (simp_all add: g_def)
  have leafg: "leaf g q = (if q = p then v else leaf h q)" if "0 \<le> q" for q
  proof (cases "q = p")
    case True
    have "rd (wr (vals h) i v) i = v" using i I by (intro rd_wr_same) simp_all
    then show ?thesis using True by (simp add: leaf_def gf i_def)
  next
    case False
    then have "i \<noteq> 2 ^ levels h - 1 + q" by (simp add: i_def)
    moreover have "0 \<le> 2 ^ levels h - 1 + q" using that P by linarith
    ultimately have "rd (wr (vals h) i v) (2 ^ levels h - 1 + q) = rd (vals h) (2 ^ levels h - 1 + q)"
      by (rule rd_wr_other)
    then show ?thesis using False by (simp add: leaf_def gf)
  qed
  have agree: "\<forall>k. 0 \<le> k \<and> k \<notin> {i} \<longrightarrow> rd (vals g) k = rd (vals h) k"
    by (simp add: gf rd_wr_other)
  have empt: "\<forall>q. count g \<le> q \<and> q < 2 ^ levels g \<longrightarrow> leaf g q = PInf"
  proof (intro allI impI)
    fix q assume q: "count g \<le> q \<and> q < 2 ^ levels g"
    then have "0 \<le> q" "q \<noteq> p" "count h \<le> q \<and> q < 2 ^ levels h" using p by (simp_all add: gf)
    then show "leaf g q = PInf" using leafg [of q] I by simp
  qed
  have sh: "1 \<le> min_levels g" "min_levels g \<le> levels g" "0 \<le> count g"
    "count g \<le> 2 ^ levels g" "int (length (vals g)) = 2 * 2 ^ levels g"
    "int (length (references g)) = 2 ^ levels g" "tree_ok (vals h) (levels g)"
    "2 ^ levels g - 1 \<le> i" "i < 2 * 2 ^ levels g - 1"
    using I i by (simp_all add: gf length_wr)
  show "heap_inv h'" unfolding h'
    by (rule heap_inv_update_one [OF sh(1-6) empt sh(7) agree sh(8,9)])
  show "leaf h' q = (if q = p then v else leaf h q)" if q: "0 \<le> q" for q
  proof -
    have "leaf h' q = leaf g q" unfolding h' using sh(1,2,9) q by (intro leaf_update_one) simp_all
    then show ?thesis using leafg [OF q] by simp
  qed
  show "count h' = count h" "levels h' = levels h" "min_levels h' = min_levels h"
    "references h' = references h" "BinaryHeap.more h' = BinaryHeap.more h"
    "popped_ref h' = popped_ref h"
    by (simp_all add: h' update_one_fields gf)
qed

text \<open>Appending a new reference: the base \<open>push_fast\<close>, then the entry of the table.\<close>

lemma append_spec:
  fixes v :: val and ref :: int
  assumes inv: "heap_inv h" and cinv: "crossref_inv h"
    and ref: "0 \<le> ref" "ref \<le> max_reference h"
  defines "g \<equiv> snd (BinaryHeap_push_fast h v ref)"
  defines "h' \<equiv> g\<lparr>crossref := wr (crossref g) ref (fst (BinaryHeap_push_fast h v ref))\<rparr>"
  shows "heap_inv h'" and "crossref_inv h'" and "max_reference h' = max_reference h"
    and "count h' = count h + 1" and "rd (crossref h') ref = count h"
    and "\<And>q. 0 \<le> q \<Longrightarrow> q < 2 ^ levels h' \<Longrightarrow>
           leaf h' q = (if q = count h then v else if q < count h then leaf h q else PInf)"
proof -
  note ps = push_fast_spec [OF inv, where v = v and ref = ref, folded g_def]
  note mf = more_fields [OF ps(5)]
  have c0: "0 \<le> count h" using inv unfolding heap_inv_alt by blast
  have hf: "count h' = count g" "levels h' = levels g" "min_levels h' = min_levels g"
    "vals h' = vals g" "references h' = references g"
    "crossref h' = wr (crossref h) ref (count h)" "max_reference h' = max_reference h"
    using ps(1) mf by (simp_all add: h'_def)
  show "heap_inv h'" using ps(2) heap_inv_cong [OF hf(1-5)] by simp
  show "max_reference h' = max_reference h" by (rule hf(7))
  show "count h' = count h + 1" using ps(3) by (simp add: hf)
  show "leaf h' q = (if q = count h then v else if q < count h then leaf h q else PInf)"
    if "0 \<le> q" "q < 2 ^ levels h'" for q
    using ps(6) [of q] that by (simp add: leaf_def hf)
  note CI = cinv [unfolded crossref_inv_alt]
  have len: "length (crossref h) = nat (max_reference h + 1)" using CI by blast
  have same: "rd (wr (crossref h) ref (count h)) ref = count h"
    using ref len by (intro rd_wr_same) simp_all
  show "rd (crossref h') ref = count h" using same by (simp add: hf)
  show "crossref_inv h'"
  proof (rule crossref_invI)
    show "length (crossref h') = nat (max_reference h' + 1)" using len by (simp add: hf length_wr)
  next
    fix p assume p: "0 \<le> p" "p < count h'"
    then have pc: "p \<le> count h" using ps(3) by (simp add: hf)
    have "rd (references h') p = (if p = count h then ref else rd (references h) p)"
      using ps(7) [OF p(1) pc] by (simp add: hf)
    moreover have "0 \<le> rd (references h) p \<and> rd (references h) p \<le> max_reference h"
      if "p < count h" using CI p(1) that by blast
    ultimately show "0 \<le> rd (references h') p \<and> rd (references h') p \<le> max_reference h'"
      using ref pc by (auto simp: hf)
  next
    fix k assume k: "0 \<le> k" "k \<le> max_reference h'" "rd (crossref h') k \<noteq> - 1"
    show "0 \<le> rd (crossref h') k \<and> rd (crossref h') k < count h' \<and>
        rd (references h') (rd (crossref h') k) = k"
    proof (cases "k = ref")
      case True
      have "rd (references h') (count h) = ref" using ps(7) [of "count h"] c0 by (simp add: hf)
      then show ?thesis using True same c0 ps(3) by (simp add: hf)
    next
      case False
      then have eq: "rd (wr (crossref h) ref (count h)) k = rd (crossref h) k"
        using k(1) by (simp add: rd_wr_other)
      then have "rd (crossref h) k \<noteq> - 1" using k(3) by (simp add: hf)
      then have c: "0 \<le> rd (crossref h) k" "rd (crossref h) k < count h"
        "rd (references h) (rd (crossref h) k) = k"
        using CI k(1,2) by (auto simp: hf)
      have "rd (references h') (rd (crossref h) k) = rd (references h) (rd (crossref h) k)"
        using ps(7) [of "rd (crossref h) k"] c by (simp add: hf)
      then show ?thesis using c ps(3) by (simp add: eq hf)
    qed
  qed
qed

lemma FastUpdateBinaryHeap_push_fast_cases:
  "\<not> (0 \<le> ref \<and> ref \<le> max_reference h) \<Longrightarrow>
     FastUpdateBinaryHeap_push_fast h v ref = (- 1, h)"
  "0 \<le> ref \<Longrightarrow> ref \<le> max_reference h \<Longrightarrow> rd (crossref h) ref \<noteq> - 1 \<Longrightarrow>
     FastUpdateBinaryHeap_push_fast h v ref =
       (rd (crossref h) ref,
        update_one (h\<lparr>vals := wr (vals h) (2 ^ levels h - 1 + rd (crossref h) ref) v\<rparr>)
          (2 ^ levels h - 1 + rd (crossref h) ref))"
  "0 \<le> ref \<Longrightarrow> ref \<le> max_reference h \<Longrightarrow> rd (crossref h) ref = - 1 \<Longrightarrow>
     FastUpdateBinaryHeap_push_fast h v ref =
       (fst (BinaryHeap_push_fast h v ref),
        (snd (BinaryHeap_push_fast h v ref))
          \<lparr>crossref := wr (crossref (snd (BinaryHeap_push_fast h v ref))) ref
                         (fst (BinaryHeap_push_fast h v ref))\<rparr>)"
  by (simp_all add: FastUpdateBinaryHeap_push_fast_def Let_def split_def)

lemma push_if_lower_fast_cases:
  "\<not> (0 \<le> ref \<and> ref \<le> max_reference h) \<Longrightarrow> push_if_lower_fast h v ref = (- 1, h)"
  "0 \<le> ref \<Longrightarrow> ref \<le> max_reference h \<Longrightarrow> rd (crossref h) ref \<noteq> - 1 \<Longrightarrow>
     v < leaf h (rd (crossref h) ref) \<Longrightarrow>
     push_if_lower_fast h v ref =
       (rd (crossref h) ref,
        update_one (h\<lparr>pushed := 1, vals := wr (vals h) (2 ^ levels h - 1 + rd (crossref h) ref) v\<rparr>)
          (2 ^ levels h - 1 + rd (crossref h) ref))"
  "0 \<le> ref \<Longrightarrow> ref \<le> max_reference h \<Longrightarrow> rd (crossref h) ref \<noteq> - 1 \<Longrightarrow>
     \<not> v < leaf h (rd (crossref h) ref) \<Longrightarrow>
     push_if_lower_fast h v ref = (rd (crossref h) ref, h\<lparr>pushed := 0\<rparr>)"
  "0 \<le> ref \<Longrightarrow> ref \<le> max_reference h \<Longrightarrow> rd (crossref h) ref = - 1 \<Longrightarrow>
     push_if_lower_fast h v ref =
       (fst (BinaryHeap_push_fast (h\<lparr>pushed := 1\<rparr>) v ref),
        (snd (BinaryHeap_push_fast (h\<lparr>pushed := 1\<rparr>) v ref))
          \<lparr>crossref := wr (crossref (snd (BinaryHeap_push_fast (h\<lparr>pushed := 1\<rparr>) v ref))) ref
                         (fst (BinaryHeap_push_fast (h\<lparr>pushed := 1\<rparr>) v ref))\<rparr>)"
  by (simp_all add: push_if_lower_fast_def Let_def split_def leaf_def)

lemma fu_inv_pushed [simp]: "fu_inv (h\<lparr>pushed := x\<rparr>) = fu_inv h"
  by (simp add: fu_inv_def heap_inv_def leaf_def crossref_inv_def)

lemma fu_inv_invalid_ref [simp]: "fu_inv (h\<lparr>invalid_ref := x\<rparr>) = fu_inv h"
  by (simp add: fu_inv_def heap_inv_def leaf_def crossref_inv_def)

lemma fu_inv_popped_ref [simp]: "fu_inv (h\<lparr>popped_ref := x\<rparr>) = fu_inv h"
  by (simp add: fu_inv_def heap_inv_def leaf_def crossref_inv_def)

lemma present_position:
  assumes "crossref_inv h" and "0 \<le> ref" and "ref \<le> max_reference h"
    and "rd (crossref h) ref \<noteq> - 1"
  shows "0 \<le> rd (crossref h) ref" and "rd (crossref h) ref < count h"
    and "rd (references h) (rd (crossref h) ref) = ref"
  using assms unfolding crossref_inv_alt by blast+

lemma fu_inv_set_leaf:
  assumes "fu_inv h" and "0 \<le> p" and "p < count h"
  shows "fu_inv (update_one (h\<lparr>vals := wr (vals h) (2 ^ levels h - 1 + p) v\<rparr>) (2 ^ levels h - 1 + p))"
proof -
  have inv: "heap_inv h" and cinv: "crossref_inv h" using assms(1) by (simp_all add: fu_inv_def)
  note s = set_leaf_spec [OF inv assms(2,3), where v = v]
  note mf = more_fields [OF s(7)]
  show ?thesis unfolding fu_inv_def
    using s(1) cinv crossref_inv_cong [OF s(3) s(6) mf(1) mf(2)] by simp
qed

lemma fu_inv_append:
  assumes "fu_inv h" and "0 \<le> ref" and "ref \<le> max_reference h"
  shows "fu_inv ((snd (BinaryHeap_push_fast h v ref))
          \<lparr>crossref := wr (crossref (snd (BinaryHeap_push_fast h v ref))) ref
                         (fst (BinaryHeap_push_fast h v ref))\<rparr>)"
proof -
  have inv: "heap_inv h" and cinv: "crossref_inv h" using assms(1) by (simp_all add: fu_inv_def)
  show ?thesis unfolding fu_inv_def
    using append_spec(1,2) [OF inv cinv assms(2,3), where v = v] by simp
qed

lemma fu_inv_push_fast: "fu_inv h \<Longrightarrow> fu_inv (snd (FastUpdateBinaryHeap_push_fast h v ref))"
proof -
  assume f: "fu_inv h"
  then have cinv: "crossref_inv h" by (simp add: fu_inv_def)
  show ?thesis
  proof (cases "0 \<le> ref \<and> ref \<le> max_reference h")
    case False
    then show ?thesis using f by (simp add: FastUpdateBinaryHeap_push_fast_cases(1))
  next
    case True
    then have r: "0 \<le> ref" "ref \<le> max_reference h" by simp_all
    show ?thesis
    proof (cases "rd (crossref h) ref = - 1")
      case True
      then show ?thesis
        using fu_inv_append [OF f r] by (simp add: FastUpdateBinaryHeap_push_fast_cases(3) [OF r])
    next
      case False
      note pp = present_position [OF cinv r False]
      show ?thesis
        using fu_inv_set_leaf [OF f pp(1,2)]
        by (simp add: FastUpdateBinaryHeap_push_fast_cases(2) [OF r False])
    qed
  qed
qed

lemma fu_inv_push_if_lower_fast: "fu_inv h \<Longrightarrow> fu_inv (snd (push_if_lower_fast h v ref))"
proof -
  assume f: "fu_inv h"
  then have cinv: "crossref_inv h" by (simp add: fu_inv_def)
  define h1 where "h1 = h\<lparr>pushed := 1\<rparr>"
  have f1: "fu_inv h1" using f by (simp add: h1_def)
  show ?thesis
  proof (cases "0 \<le> ref \<and> ref \<le> max_reference h")
    case False
    then show ?thesis using f by (simp add: push_if_lower_fast_cases(1))
  next
    case True
    then have r: "0 \<le> ref" "ref \<le> max_reference h" by simp_all
    have r1: "0 \<le> ref" "ref \<le> max_reference h1" using r by (simp_all add: h1_def)
    show ?thesis
    proof (cases "rd (crossref h) ref = - 1")
      case True
      then show ?thesis
        using fu_inv_append [OF f1 r1, of v]
        by (simp add: push_if_lower_fast_cases(4) [OF r] h1_def)
    next
      case False
      note pp = present_position [OF cinv r False]
      have pp1: "0 \<le> rd (crossref h) ref" "rd (crossref h) ref < count h1"
        using pp by (simp_all add: h1_def)
      show ?thesis
      proof (cases "v < leaf h (rd (crossref h) ref)")
        case True
        then show ?thesis
          using fu_inv_set_leaf [OF f1 pp1, of v]
          by (simp add: push_if_lower_fast_cases(2) [OF r False] h1_def)
      next
        case F2: False
        then show ?thesis
          using f by (simp add: push_if_lower_fast_cases(3) [OF r False])
      qed
    qed
  qed
qed

lemma snd_FastUpdateBinaryHeap_push:
  "snd (FastUpdateBinaryHeap_push h v ref) = snd (FastUpdateBinaryHeap_push_fast h v ref)"
  by (simp add: FastUpdateBinaryHeap_push_def split_def Let_def)

lemma snd_push_if_lower: "snd (push_if_lower h v ref) = snd (push_if_lower_fast h v ref)"
  by (simp add: push_if_lower_def split_def Let_def)

lemma fu_inv_push: "fu_inv h \<Longrightarrow> fu_inv (snd (FastUpdateBinaryHeap_push h v ref))"
  unfolding snd_FastUpdateBinaryHeap_push by (rule fu_inv_push_fast)

lemma fu_inv_push_if_lower: "fu_inv h \<Longrightarrow> fu_inv (snd (push_if_lower h v ref))"
  unfolding snd_push_if_lower by (rule fu_inv_push_if_lower_fast)

lemma fu_inv_value_of: "fu_inv h \<Longrightarrow> fu_inv (snd (value_of h ref))"
  by (simp add: value_of_def value_of_fast_def Let_def)

lemma fu_inv_pop: "fu_inv h \<Longrightarrow> fu_inv (snd (FastUpdateBinaryHeap_pop h))"
proof -
  assume f: "fu_inv h"
  then have inv: "heap_inv h" and cinv: "crossref_inv h" by (simp_all add: fu_inv_def)
  define p where "p = min_leaf h"
  define h1 where "h1 = h\<lparr>popped_ref := rd (references h) p\<rparr>"
  have f1: "fu_inv h1" using f by (simp add: h1_def)
  then have inv1: "heap_inv h1" and cinv1: "crossref_inv h1" by (simp_all add: fu_inv_def)
  have snd_eq: "snd (FastUpdateBinaryHeap_pop h) =
      (if count h = 0 then h
       else if to_float (leaf h p) \<noteq> PInf
            then FastUpdateBinaryHeap_remove h1 (2 ^ levels h1 - 1 + p)
       else h1)"
    by (simp add: FastUpdateBinaryHeap_pop_def pop_def pop_fast_eq p_def h1_def)
  show ?thesis
  proof (cases "count h \<noteq> 0 \<and> to_float (leaf h p) \<noteq> PInf")
    case True
    then have "leaf h p \<noteq> PInf" by auto
    then have "p < count h" using min_leaf_occupied [OF inv] by (simp add: p_def)
    then have pc: "p < count h1" by (simp add: h1_def)
    have p0: "0 \<le> p" using min_leaf_spec(1) [OF inv] by (simp add: p_def)
    note rs = FastUpdateBinaryHeap_remove_spec [OF inv1 cinv1 p0 pc]
    show ?thesis using True rs(1,2) by (simp add: snd_eq fu_inv_def)
  next
    case False
    then show ?thesis using f f1 by (auto simp add: snd_eq)
  qed
qed

subsection \<open>The indexed heap: reset, constructor and histories\<close>

lemma FastUpdateBinaryHeap_reset_eq:
  "FastUpdateBinaryHeap_reset h =
     (BinaryHeap_reset h)\<lparr>crossref := fill (crossref h) (max_reference h + 1) (- 1)\<rparr>"
  by (simp add: FastUpdateBinaryHeap_reset_def Let_def BinaryHeap_reset_def)

lemma fu_inv_reset_shape:
  assumes "1 \<le> min_levels g" and "min_levels g \<le> levels g"
    and "0 \<le> count g" and "count g \<le> 2 ^ levels g"
    and "int (length (vals g)) = 2 * 2 ^ levels g"
    and "int (length (references g)) = 2 ^ levels g"
    and "length (crossref g) = nat (max_reference g + 1)"
    and "\<forall>p. 0 \<le> p \<and> p < count g \<longrightarrow>
           0 \<le> rd (references g) p \<and> rd (references g) p \<le> max_reference g"
  shows "fu_inv (FastUpdateBinaryHeap_reset g)"
proof -
  define h' where "h' = FastUpdateBinaryHeap_reset g"
  have f: "count h' = count (BinaryHeap_reset g)" "levels h' = levels (BinaryHeap_reset g)"
    "min_levels h' = min_levels (BinaryHeap_reset g)" "vals h' = vals (BinaryHeap_reset g)"
    "references h' = references (BinaryHeap_reset g)"
    "max_reference h' = max_reference g"
    "crossref h' = replicate (nat (max_reference g + 1)) (- 1)"
    using assms(7)
    by (simp_all add: h'_def FastUpdateBinaryHeap_reset_eq fill_nat BinaryHeap_reset_def Let_def)
  have "heap_inv h'"
    using heap_inv_reset [OF assms(1-6)] heap_inv_cong [OF f(1-5)] by simp
  moreover have "crossref_inv h'"
  proof (rule crossref_invI)
    show "length (crossref h') = nat (max_reference h' + 1)" by (simp add: f)
  next
    fix p assume "0 \<le> p" "p < count h'"
    then show "0 \<le> rd (references h') p \<and> rd (references h') p \<le> max_reference h'"
      using assms(8) by (simp add: f BinaryHeap_reset_fields)
  next
    fix k assume k: "0 \<le> k" "k \<le> max_reference h'" "rd (crossref h') k \<noteq> - 1"
    have "rd (replicate (nat (max_reference g + 1)) (- 1 :: int)) k = - 1"
      using k(1,2) by (intro rd_replicate) (simp_all add: f)
    with k(3) show "0 \<le> rd (crossref h') k \<and> rd (crossref h') k < count h' \<and>
        rd (references h') (rd (crossref h') k) = k"
      by (simp add: f)
  qed
  ultimately show ?thesis by (simp add: fu_inv_def h'_def)
qed

lemma fu_inv_reset: "fu_inv h \<Longrightarrow> fu_inv (FastUpdateBinaryHeap_reset h)"
proof -
  assume f: "fu_inv h"
  then have I: "heap_inv h" and C: "crossref_inv h" by (simp_all add: fu_inv_def)
  note I' = I [unfolded heap_inv_alt]
  note C' = C [unfolded crossref_inv_alt]
  show ?thesis
    by (rule fu_inv_reset_shape) (use I' C' in blast)+
qed

lemma fu_inv_new:
  assumes "2 \<le> c"
  shows "fu_inv (FastUpdateBinaryHeap_new c m uv ur uc)"
proof -
  define mr where "mr = (case m of None \<Rightarrow> c - 1 | Some x \<Rightarrow> x)"
  define g :: FastUpdateBinaryHeap where
    "g = \<lparr>count = 0, levels = calc_levels c 0, min_levels = calc_levels c 0,
          vals = malloc (2 * 2 ^ calc_levels c 0) uv,
          references = malloc (2 ^ calc_levels c 0) ur,
          popped_ref = 0, max_reference = mr, crossref = malloc (mr + 1) uc,
          pushed = 0, invalid_ref = 0\<rparr>"
  have eq: "FastUpdateBinaryHeap_new c m uv ur uc = FastUpdateBinaryHeap_reset g"
    by (simp add: FastUpdateBinaryHeap_new_def BinaryHeap_init_eq Let_def g_def mr_def)
  show ?thesis unfolding eq
    using calc_levels_pos [OF assms]
    by (intro fu_inv_reset_shape) (simp_all add: g_def length_malloc)
qed

lemma fu_inv_call: "fu_inv h \<Longrightarrow> fu_inv (snd (FastUpdateBinaryHeap_call h c))"
proof (cases c)
  case (FPush v r)
  assume "fu_inv h"
  then show ?thesis using FPush by (simp add: fu_inv_push)
next
  case (FPushIfLower v r)
  assume "fu_inv h"
  then show ?thesis using FPushIfLower by (simp add: fu_inv_push_if_lower)
next
  case FPop
  assume "fu_inv h"
  then show ?thesis using FPop by (simp add: pop_case_eq fu_inv_pop)
next
  case (FValueOf r)
  assume "fu_inv h"
  then show ?thesis using FValueOf by (simp add: fu_inv_value_of)
next
  case FReset
  assume "fu_inv h"
  then show ?thesis using FReset by (simp add: fu_inv_reset)
qed

lemma fu_inv_run: "fu_inv h \<Longrightarrow> fu_inv (snd (FastUpdateBinaryHeap_run h cs))"
proof (induction cs arbitrary: h)
  case Nil
  then show ?case by simp
next
  case (Cons c cs)
  have "fu_inv (snd (FastUpdateBinaryHeap_call h c))" using Cons.prems by (rule fu_inv_call)
  then have "fu_inv (snd (FastUpdateBinaryHeap_run (snd (FastUpdateBinaryHeap_call h c)) cs))"
    by (rule Cons.IH)
  then show ?case by (simp add: split_def Let_def)
qed

subsection \<open>The Python level methods\<close>

text \<open>
  \<open>min_val\<close> compares the two slots below the root; a heap whose occupied leaves all hold
  the sentinel is searched down to its last leaf; and the two checked methods raise for a
  reference outside the range before anything is written.
\<close>

lemma min_val_eq: "min_val h = Inr (min (rd (vals h) 1) (rd (vals h) 2))"
  by (auto simp add: min_val_def Let_def min_def)

lemma all_sentinel_min_leaf:
  assumes inv: "heap_inv h" and all: "\<forall>p. 0 \<le> p \<and> p < count h \<longrightarrow> leaf h p = PInf"
  shows "leaf h (min_leaf h) = PInf" and "min_leaf h = 2 ^ levels h - 1"
proof -
  note ml = min_leaf_spec [OF inv]
  have every: "leaf h q = PInf" if "0 \<le> q" "q < 2 ^ levels h" for q
  proof (cases "q < count h")
    case True
    then show ?thesis using all that by blast
  next
    case False
    then show ?thesis using inv that unfolding heap_inv_alt by simp
  qed
  show v: "leaf h (min_leaf h) = PInf" by (rule every [OF ml(1,2)])
  have P: "(1::int) \<le> 2 ^ levels h" by simp
  have q: "0 \<le> 2 ^ levels h - (1::int)" "2 ^ levels h - 1 < (2::int) ^ levels h" using P by linarith+
  have "2 ^ levels h - 1 \<le> min_leaf h"
    using ml(5) [OF q] every [OF q] v by simp
  with ml(2) show "min_leaf h = 2 ^ levels h - 1" by linarith
qed

lemma out_of_range_push:
  assumes "\<not> (0 \<le> ref \<and> ref \<le> max_reference h)"
  shows "FastUpdateBinaryHeap_push h v ref =
           (Inl (ValueError ''reference outside of range [0, max_reference]''), h)"
    and "push_if_lower h v ref =
           (Inl (ValueError ''reference outside of range [0, max_reference]''), h)"
  using assms
  by (simp_all add: FastUpdateBinaryHeap_push_def push_if_lower_def
      FastUpdateBinaryHeap_push_fast_cases(1) push_if_lower_fast_cases(1))

lemma value_of_eq:
  "value_of h ref =
     (if rd (crossref h) ref = - 1
      then (Inl (ValueError ''invalid reference''), h\<lparr>invalid_ref := 1\<rparr>)
      else (Inr (to_float (leaf h (rd (crossref h) ref))), h\<lparr>invalid_ref := 0\<rparr>))"
  by (simp add: value_of_def value_of_fast_def Let_def leaf_def)

subsection \<open>The order of the values popped\<close>

text \<open>
  While no push goes below the value of the latest \<open>pop\<close>, every leaf stays, as a float,
  at or above that value, so the next \<open>pop\<close> cannot return less.
\<close>

lemma leaf_reset:
  assumes "int (length (vals g)) = 2 * 2 ^ levels g" and "0 \<le> p" and "p < 2 ^ levels g"
  shows "leaf (BinaryHeap_reset g) p = PInf"
proof -
  have v: "vals (BinaryHeap_reset g) = replicate (nat (2 * 2 ^ levels g)) PInf"
    using assms(1) by (simp add: BinaryHeap_reset_fields fill_all mult.commute)
  have "(1::int) \<le> 2 ^ levels g" by simp
  with assms(2,3) have "0 \<le> 2 ^ levels g - 1 + p"
    "2 ^ levels g - 1 + p < int (nat (2 * 2 ^ levels g))"
    by simp_all
  then show ?thesis unfolding leaf_def BinaryHeap_reset_fields(3) v by (rule rd_replicate)
qed

lemma float_boundI:
  assumes "\<And>q. 0 \<le> q \<Longrightarrow> q < 2 ^ levels h \<Longrightarrow> b \<le> to_float (leaf h q)"
  shows "float_bound h b"
  using assms by (simp add: float_bound_def)

lemma float_boundD:
  assumes "float_bound h b" and "0 \<le> q" and "q < 2 ^ levels h"
  shows "b \<le> to_float (leaf h q)"
  using assms by (simp add: float_bound_def)

lemma float_bound_cong:
  assumes "levels g' = levels g" and "vals g' = vals g"
  shows "float_bound g' b = float_bound g b"
  using assms by (simp add: float_bound_def leaf_def)

lemma float_bound_NInf: "float_bound h NInf"
  by (simp add: float_bound_def)

lemma float_bound_reset:
  assumes "heap_inv h"
  shows "float_bound (BinaryHeap_reset h) b"
proof (rule float_boundI)
  fix q :: int assume q: "0 \<le> q" "q < 2 ^ levels (BinaryHeap_reset h)"
  have len: "int (length (vals h)) = 2 * 2 ^ levels h" using assms unfolding heap_inv_alt by blast
  have "leaf (BinaryHeap_reset h) q = PInf"
    using q by (intro leaf_reset [OF len]) (simp_all add: BinaryHeap_reset_fields)
  then show "b \<le> to_float (leaf (BinaryHeap_reset h) q)" by simp
qed

text \<open>A value that is at least a float is at least that float after its conversion.\<close>

lemma above_float:
  assumes "to_float b = b" and "b \<le> v"
  shows "b \<le> to_float v"
  using to_float_mono [OF assms(2)] assms(1) by simp

lemma float_bound_push:
  assumes inv: "heap_inv h" and fb: "float_bound h b" and b: "to_float b = b" and v: "b \<le> v"
  shows "float_bound (snd (BinaryHeap_push_fast h v r)) b"
proof (rule float_boundI)
  define h' where "h' = snd (BinaryHeap_push_fast h v r)"
  fix q :: int assume q: "0 \<le> q" "q < 2 ^ levels (snd (BinaryHeap_push_fast h v r))"
  note ps = push_fast_spec [OF inv, where v = v and ref = r, folded h'_def]
  have c: "count h \<le> 2 ^ levels h" using inv unfolding heap_inv_alt by blast
  have lf: "leaf h' q = (if q = count h then v else if q < count h then leaf h q else PInf)"
    using q by (intro ps(6)) (simp_all add: h'_def)
  have old: "b \<le> to_float (leaf h q)" if "q < count h"
    using that c q(1) by (intro float_boundD [OF fb]) simp_all
  show "b \<le> to_float (leaf (snd (BinaryHeap_push_fast h v r)) q)"
    unfolding h'_def [symmetric] lf using old above_float [OF b v] by simp
qed

lemma float_bound_set_leaf:
  assumes inv: "heap_inv h" and p: "0 \<le> p" "p < count h"
    and fb: "float_bound h b" and b: "to_float b = b" and v: "b \<le> v"
  shows "float_bound (update_one (h\<lparr>vals := wr (vals h) (2 ^ levels h - 1 + p) v\<rparr>)
           (2 ^ levels h - 1 + p)) b"
proof (rule float_boundI)
  define h' where "h' = update_one (h\<lparr>vals := wr (vals h) (2 ^ levels h - 1 + p) v\<rparr>)
           (2 ^ levels h - 1 + p)"
  fix q :: int assume q: "0 \<le> q" "q < 2 ^ levels (update_one (h\<lparr>vals := wr (vals h) (2 ^ levels h - 1 + p) v\<rparr>)
           (2 ^ levels h - 1 + p))"
  note s = set_leaf_spec [OF inv p, where v = v, folded h'_def]
  have ql: "q < 2 ^ levels h" using q(2) s(4) by (simp add: h'_def)
  have lf: "leaf h' q = (if q = p then v else leaf h q)" by (rule s(2) [OF q(1)])
  have old: "b \<le> to_float (leaf h q)" by (rule float_boundD [OF fb q(1) ql])
  show "b \<le> to_float (leaf (update_one (h\<lparr>vals := wr (vals h) (2 ^ levels h - 1 + p) v\<rparr>)
           (2 ^ levels h - 1 + p)) q)"
    unfolding h'_def [symmetric] lf using old above_float [OF b v] by simp
qed

text \<open>What a successful \<open>pop\<close> returns, and what it leaves.\<close>

lemma pop_float:
  fixes h :: "'a BinaryHeap_scheme"
  assumes rm: "removes rm" and inv: "heap_inv h"
  defines "x \<equiv> to_float (leaf h (min_leaf h))"
  shows "float_bound (snd (pop rm h)) x"
    and "float_bound h b \<Longrightarrow> b \<le> x"
    and "to_float x = x"
proof -
  note ps = pop_spec [OF rm inv]
  have lb: "lower_bound (snd (pop rm h)) (leaf h (min_leaf h))" by (intro ps(4) ps(5))
  show "float_bound (snd (pop rm h)) x"
  proof (rule float_boundI)
    fix q :: int assume "0 \<le> q" "q < 2 ^ levels (snd (pop rm h))"
    then have "leaf h (min_leaf h) \<le> leaf (snd (pop rm h)) q"
      using lb by (simp add: lower_bound_def)
    then show "x \<le> to_float (leaf (snd (pop rm h)) q)" unfolding x_def by (rule to_float_mono)
  qed
  show "b \<le> x" if "float_bound h b"
    unfolding x_def by (rule float_boundD [OF that min_leaf_spec(1,2) [OF inv]])
  show "to_float x = x" unfolding x_def by (rule to_float_idem)
qed

lemma last_single: "last (b # [x]) = x" "last (b # []) = b"
  by simp_all

lemma BinaryHeap_order:
  "heap_inv h \<Longrightarrow> float_bound h b \<Longrightarrow> to_float b = b \<Longrightarrow> BinaryHeap_pushes_above h b cs \<Longrightarrow>
     sorted (fst (BinaryHeap_run h cs)) \<and> (\<forall>x\<in>set (fst (BinaryHeap_run h cs)). b \<le> x)"
proof (induction cs arbitrary: h b)
  case Nil
  then show ?case by simp
next
  case (Cons c cs)
  note inv = Cons.prems(1) and fb = Cons.prems(2) and b = Cons.prems(3)
  have ab: "op_above b c"
    and rest: "BinaryHeap_pushes_above (snd (BinaryHeap_call h c)) (last (b # fst (BinaryHeap_call h c))) cs"
    using Cons.prems(4) by simp_all
  define h' where "h' = snd (BinaryHeap_call h c)"
  have inv': "heap_inv h'" unfolding h'_def using inv by (rule heap_inv_call)
  have run: "fst (BinaryHeap_run h (c # cs)) = fst (BinaryHeap_call h c) @ fst (BinaryHeap_run h' cs)"
    by (simp add: split_def Let_def h'_def)
  have quiet: ?case
    if out: "fst (BinaryHeap_call h c) = []" and fb': "float_bound h' b"
  proof -
    have "BinaryHeap_pushes_above h' b cs" using rest by (simp add: out h'_def)
    from Cons.IH [OF inv' fb' b this] show ?thesis unfolding run out by simp
  qed
  show ?case
  proof (cases c)
    case (Push v r)
    have "float_bound h' b"
      using float_bound_push [OF inv fb b] ab by (simp add: h'_def Push BinaryHeap_push_def)
    then show ?thesis by (intro quiet) (simp add: Push)
  next
    case Reset
    have "float_bound h' b" using float_bound_reset [OF inv] by (simp add: h'_def Reset)
    then show ?thesis by (intro quiet) (simp add: Reset)
  next
    case Pop
    note ps = pop_spec [OF removes_BinaryHeap_remove inv]
    show ?thesis
    proof (cases "count h = 0")
      case True
      have e: "BinaryHeap_pop h = (Inl (IndexError ''pop from an empty heap''), h)"
        unfolding BinaryHeap_pop_def using True by (rule ps(1))
      have "float_bound h' b" using fb by (simp add: h'_def Pop e)
      then show ?thesis by (intro quiet) (simp add: Pop e)
    next
      case False
      define x where "x = to_float (leaf h (min_leaf h))"
      note pf = pop_float [OF removes_BinaryHeap_remove inv, folded x_def]
      have f: "fst (BinaryHeap_pop h) = Inr (x, rd (references h) (min_leaf h))"
        unfolding BinaryHeap_pop_def x_def using False by (rule ps(2))
      have out: "fst (BinaryHeap_call h c) = [x]" by (simp add: Pop pop_case_eq f)
      have hp: "h' = snd (pop BinaryHeap_remove h)"
        by (simp add: h'_def Pop pop_case_eq BinaryHeap_pop_def)
      have fb': "float_bound h' x" unfolding hp by (rule pf(1))
      have "BinaryHeap_pushes_above h' x cs" using rest by (simp add: out h'_def)
      from Cons.IH [OF inv' fb' pf(3) this]
      have IH: "sorted (fst (BinaryHeap_run h' cs))" "\<forall>y\<in>set (fst (BinaryHeap_run h' cs)). x \<le> y"
        by simp_all
      have bx: "b \<le> x" by (rule pf(2) [OF fb])
      have "\<forall>y\<in>set (fst (BinaryHeap_run h' cs)). b \<le> y" using IH(2) bx by (meson order_trans)
      then show ?thesis unfolding run out using IH bx by simp
    qed
  qed
qed

lemma float_bound_push_fast:
  assumes f: "fu_inv h" and fb: "float_bound h b" and b: "to_float b = b" and v: "b \<le> v"
  shows "float_bound (snd (FastUpdateBinaryHeap_push_fast h v ref)) b"
proof -
  have inv: "heap_inv h" and cinv: "crossref_inv h" using f by (simp_all add: fu_inv_def)
  show ?thesis
  proof (cases "0 \<le> ref \<and> ref \<le> max_reference h")
    case False
    then show ?thesis using fb by (simp add: FastUpdateBinaryHeap_push_fast_cases(1))
  next
    case True
    then have r: "0 \<le> ref" "ref \<le> max_reference h" by simp_all
    show ?thesis
    proof (cases "rd (crossref h) ref = - 1")
      case True
      have "float_bound (snd (BinaryHeap_push_fast h v ref)) b"
        by (rule float_bound_push [OF inv fb b v])
      then show ?thesis
        using float_bound_cong [of "(snd (BinaryHeap_push_fast h v ref))\<lparr>crossref := c\<rparr>"
            "snd (BinaryHeap_push_fast h v ref)" b for c]
        by (simp add: FastUpdateBinaryHeap_push_fast_cases(3) [OF r True])
    next
      case False
      note pp = present_position [OF cinv r False]
      show ?thesis
        using float_bound_set_leaf [OF inv pp(1,2) fb b v]
        by (simp add: FastUpdateBinaryHeap_push_fast_cases(2) [OF r False])
    qed
  qed
qed

lemma float_bound_push_if_lower_fast:
  assumes f: "fu_inv h" and fb: "float_bound h b" and b: "to_float b = b" and v: "b \<le> v"
  shows "float_bound (snd (push_if_lower_fast h v ref)) b"
proof -
  have cinv: "crossref_inv h" using f by (simp add: fu_inv_def)
  define h1 where "h1 = h\<lparr>pushed := 1\<rparr>"
  have f1: "fu_inv h1" using f by (simp add: h1_def)
  then have inv1: "heap_inv h1" by (simp add: fu_inv_def)
  have fb1: "float_bound h1 b" using fb float_bound_cong [of h1 h b] by (simp add: h1_def)
  show ?thesis
  proof (cases "0 \<le> ref \<and> ref \<le> max_reference h")
    case False
    then show ?thesis using fb by (simp add: push_if_lower_fast_cases(1))
  next
    case True
    then have r: "0 \<le> ref" "ref \<le> max_reference h" by simp_all
    show ?thesis
    proof (cases "rd (crossref h) ref = - 1")
      case True
      have "float_bound (snd (BinaryHeap_push_fast h1 v ref)) b"
        by (rule float_bound_push [OF inv1 fb1 b v])
      then show ?thesis
        using float_bound_cong [of "(snd (BinaryHeap_push_fast h1 v ref))\<lparr>crossref := c\<rparr>"
            "snd (BinaryHeap_push_fast h1 v ref)" b for c]
        by (simp add: push_if_lower_fast_cases(4) [OF r True] h1_def)
    next
      case False
      note pp = present_position [OF cinv r False]
      have pp1: "0 \<le> rd (crossref h) ref" "rd (crossref h) ref < count h1"
        using pp by (simp_all add: h1_def)
      show ?thesis
      proof (cases "v < leaf h (rd (crossref h) ref)")
        case True
        then show ?thesis
          using float_bound_set_leaf [OF inv1 pp1 fb1 b v]
          by (simp add: push_if_lower_fast_cases(2) [OF r False] h1_def)
      next
        case F2: False
        then show ?thesis
          using fb float_bound_cong [of "h\<lparr>pushed := 0\<rparr>" h b]
          by (simp add: push_if_lower_fast_cases(3) [OF r False])
      qed
    qed
  qed
qed

lemma float_bound_value_of: "float_bound (snd (value_of h r)) b = float_bound h b"
  by (rule float_bound_cong) (simp_all add: value_of_eq)

lemma float_bound_FastUpdateBinaryHeap_reset:
  assumes "heap_inv h"
  shows "float_bound (FastUpdateBinaryHeap_reset h) b"
  using float_bound_reset [OF assms, of b]
    float_bound_cong [of "FastUpdateBinaryHeap_reset h" "BinaryHeap_reset h" b]
  by (simp add: FastUpdateBinaryHeap_reset_eq)

lemma FastUpdateBinaryHeap_order:
  "fu_inv h \<Longrightarrow> float_bound h b \<Longrightarrow> to_float b = b \<Longrightarrow>
     FastUpdateBinaryHeap_pushes_above h b cs \<Longrightarrow>
     sorted (fst (FastUpdateBinaryHeap_run h cs)) \<and>
     (\<forall>x\<in>set (fst (FastUpdateBinaryHeap_run h cs)). b \<le> x)"
proof (induction cs arbitrary: h b)
  case Nil
  then show ?case by simp
next
  case (Cons c cs)
  note f = Cons.prems(1) and fb = Cons.prems(2) and b = Cons.prems(3)
  have inv: "heap_inv h" using f by (simp add: fu_inv_def)
  have ab: "fop_above b c"
    and rest: "FastUpdateBinaryHeap_pushes_above (snd (FastUpdateBinaryHeap_call h c))
                 (last (b # fst (FastUpdateBinaryHeap_call h c))) cs"
    using Cons.prems(4) by simp_all
  define h' where "h' = snd (FastUpdateBinaryHeap_call h c)"
  have f': "fu_inv h'" unfolding h'_def using f by (rule fu_inv_call)
  have run: "fst (FastUpdateBinaryHeap_run h (c # cs)) =
      fst (FastUpdateBinaryHeap_call h c) @ fst (FastUpdateBinaryHeap_run h' cs)"
    by (simp add: split_def Let_def h'_def)
  have quiet: ?case
    if out: "fst (FastUpdateBinaryHeap_call h c) = []" and fb': "float_bound h' b"
  proof -
    have "FastUpdateBinaryHeap_pushes_above h' b cs" using rest by (simp add: out h'_def)
    from Cons.IH [OF f' fb' b this] show ?thesis unfolding run out by simp
  qed
  show ?case
  proof (cases c)
    case (FPush v r)
    have "float_bound h' b"
      using float_bound_push_fast [OF f fb b] ab
      by (simp add: h'_def FPush snd_FastUpdateBinaryHeap_push)
    then show ?thesis by (intro quiet) (simp add: FPush)
  next
    case (FPushIfLower v r)
    have "float_bound h' b"
      using float_bound_push_if_lower_fast [OF f fb b] ab
      by (simp add: h'_def FPushIfLower snd_push_if_lower)
    then show ?thesis by (intro quiet) (simp add: FPushIfLower)
  next
    case (FValueOf r)
    have "float_bound h' b" using fb by (simp add: h'_def FValueOf float_bound_value_of)
    then show ?thesis by (intro quiet) (simp add: FValueOf)
  next
    case FReset
    have "float_bound h' b"
      using float_bound_FastUpdateBinaryHeap_reset [OF inv] by (simp add: h'_def FReset)
    then show ?thesis by (intro quiet) (simp add: FReset)
  next
    case FPop
    note ps = pop_spec [OF removes_FastUpdateBinaryHeap_remove inv]
    show ?thesis
    proof (cases "count h = 0")
      case True
      have e: "FastUpdateBinaryHeap_pop h = (Inl (IndexError ''pop from an empty heap''), h)"
        unfolding FastUpdateBinaryHeap_pop_def using True by (rule ps(1))
      have "float_bound h' b" using fb by (simp add: h'_def FPop e)
      then show ?thesis by (intro quiet) (simp add: FPop e)
    next
      case False
      define x where "x = to_float (leaf h (min_leaf h))"
      note pf = pop_float [OF removes_FastUpdateBinaryHeap_remove inv, folded x_def]
      have fp: "fst (FastUpdateBinaryHeap_pop h) = Inr (x, rd (references h) (min_leaf h))"
        unfolding FastUpdateBinaryHeap_pop_def x_def using False by (rule ps(2))
      have out: "fst (FastUpdateBinaryHeap_call h c) = [x]" by (simp add: FPop pop_case_eq fp)
      have hp: "h' = snd (pop FastUpdateBinaryHeap_remove h)"
        by (simp add: h'_def FPop pop_case_eq FastUpdateBinaryHeap_pop_def)
      have fb': "float_bound h' x" unfolding hp by (rule pf(1))
      have "FastUpdateBinaryHeap_pushes_above h' x cs" using rest by (simp add: out h'_def)
      from Cons.IH [OF f' fb' pf(3) this]
      have IH: "sorted (fst (FastUpdateBinaryHeap_run h' cs))"
        "\<forall>y\<in>set (fst (FastUpdateBinaryHeap_run h' cs)). x \<le> y"
        by simp_all
      have bx: "b \<le> x" by (rule pf(2) [OF fb])
      have "\<forall>y\<in>set (fst (FastUpdateBinaryHeap_run h' cs)). b \<le> y"
        using IH(2) bx by (meson order_trans)
      then show ?thesis unfolding run out using IH bx by simp
    qed
  qed
qed

subsection \<open>Further facts about the methods\<close>

text \<open>
  \<open>push\<close> of a reference that is present; what \<open>pop\<close> returns for a value that is not a
  float and for a finite value beyond the floats; and the heap \<open>BinaryHeap(1)\<close>, which has
  no level and a buffer of two values, so that the comparison of \<open>values[1]\<close> with
  \<open>values[2]\<close> in \<open>pop_fast\<close> and \<open>min_val\<close> reads outside the buffer.
\<close>

lemma push_present:
  assumes "heap_inv h" and "crossref_inv h"
    and "0 \<le> ref" and "ref \<le> max_reference h" and "rd (crossref h) ref \<noteq> - 1"
  shows "fst (FastUpdateBinaryHeap_push h v ref) = Inr () \<and>
         count (snd (FastUpdateBinaryHeap_push h v ref)) = count h \<and>
         levels (snd (FastUpdateBinaryHeap_push h v ref)) = levels h \<and>
         references (snd (FastUpdateBinaryHeap_push h v ref)) = references h \<and>
         crossref (snd (FastUpdateBinaryHeap_push h v ref)) = crossref h \<and>
         vals (snd (FastUpdateBinaryHeap_push h v ref))
           = vals (update_one (h\<lparr>vals := wr (vals h) (2 ^ levels h - 1 + rd (crossref h) ref) v\<rparr>)
                    (2 ^ levels h - 1 + rd (crossref h) ref)) \<and>
         leaf (snd (FastUpdateBinaryHeap_push h v ref)) (rd (crossref h) ref) = v \<and>
         (\<forall>q. 0 \<le> q \<and> q \<noteq> rd (crossref h) ref \<longrightarrow>
              leaf (snd (FastUpdateBinaryHeap_push h v ref)) q = leaf h q) \<and>
         heap_inv (snd (FastUpdateBinaryHeap_push h v ref)) \<and>
         fst (value_of (snd (FastUpdateBinaryHeap_push h v ref)) ref) = Inr (to_float v)"
proof -
  define p where "p = rd (crossref h) ref"
  define h' where "h' = update_one (h\<lparr>vals := wr (vals h) (2 ^ levels h - 1 + p) v\<rparr>) (2 ^ levels h - 1 + p)"
  note pp = present_position [OF assms(2-5), folded p_def]
  have pf: "FastUpdateBinaryHeap_push_fast h v ref = (p, h')"
    unfolding p_def h'_def by (rule FastUpdateBinaryHeap_push_fast_cases(2) [OF assms(3-5)])
  have pne: "p \<noteq> - 1" using assms(5) by (simp add: p_def)
  have push: "FastUpdateBinaryHeap_push h v ref = (Inr (), h')"
    using pne by (simp add: FastUpdateBinaryHeap_push_def pf)
  note s = set_leaf_spec [OF assms(1) pp(1,2), where v = v, folded h'_def]
  note mf = more_fields [OF s(7)]
  have lp: "leaf h' p = v" using s(2) [OF pp(1)] by simp
  have lq: "\<forall>q. 0 \<le> q \<and> q \<noteq> p \<longrightarrow> leaf h' q = leaf h q" using s(2) by simp
  have vo: "fst (value_of h' ref) = Inr (to_float v)"
    using pne lp by (simp add: value_of_eq mf(1) p_def [symmetric])
  show ?thesis
    unfolding push p_def [symmetric]
    using s(1,3,4,6) mf(1) lp lq vo by (simp add: h'_def)
qed

lemma pop_returns_a_float:
  "fst (BinaryHeap_pop (snd (BinaryHeap_push example_new (Fin 16777217) 0)))
     = Inr (Fin 16777216, 0)"
  "count (snd (BinaryHeap_pop (snd (BinaryHeap_push example_new (Fin 16777217) 0)))) = 0"
  "fst (BinaryHeap_pop (snd (BinaryHeap_push example_new (Fin (2 ^ 128)) 0))) = Inr (PInf, 0)"
  "count (snd (BinaryHeap_pop (snd (BinaryHeap_push example_new (Fin (2 ^ 128)) 0)))) = 1"
  by code_simp+

lemma new_heap_of_capacity_one:
  "levels (BinaryHeap_new 1 uv ur) = 0" "length (vals (BinaryHeap_new 1 uv ur)) = 2"
proof -
  have c: "calc_levels 1 0 = 0" by (simp add: calc_levels.simps)
  show "levels (BinaryHeap_new 1 uv ur) = 0"
    by (simp add: BinaryHeap_new_def BinaryHeap_init_eq BinaryHeap_reset_fields c)
  show "length (vals (BinaryHeap_new 1 uv ur)) = 2"
    by (simp add: BinaryHeap_new_def BinaryHeap_init_eq BinaryHeap_reset_fields c length_malloc
        fill_malloc)
qed

section \<open>The claims\<close>

subsection \<open>Claims that hold\<close>

text \<open>
  Claim C2 (\<open>pushIfLower\<close> on an indexed heap). For a reference in range on a heap
  satisfying the invariants: if the reference is present and the new value is strictly
  less than the stored one, \<open>push_if_lower\<close> returns \<open>True\<close> and does what \<open>push\<close> does (the
  leaf of the reference holds the new value, every other leaf, the count and both
  reference buffers are as before, and the tree is repaired); if the reference is present
  and the new value is not strictly less, it returns \<open>False\<close> and nothing but the flag
  \<open>_pushed\<close> changes; if the reference is absent, it returns \<open>True\<close> and does what \<open>push\<close>
  does (the value is appended at leaf \<open>count\<close>, the count grows by one and the table records
  the new position).
\<close>

theorem push_if_lower_spec:
  assumes "heap_inv h" and "crossref_inv h" and "0 \<le> ref" and "ref \<le> max_reference h"
  shows "(rd (crossref h) ref \<noteq> - 1 \<and> v < leaf h (rd (crossref h) ref) \<longrightarrow>
            fst (push_if_lower h v ref) = Inr True \<and>
            snd (FastUpdateBinaryHeap_push (h\<lparr>pushed := 1\<rparr>) v ref) = snd (push_if_lower h v ref) \<and>
            leaf (snd (push_if_lower h v ref)) (rd (crossref h) ref) = v \<and>
            (\<forall>q. 0 \<le> q \<and> q \<noteq> rd (crossref h) ref \<longrightarrow>
                 leaf (snd (push_if_lower h v ref)) q = leaf h q) \<and>
            count (snd (push_if_lower h v ref)) = count h \<and>
            references (snd (push_if_lower h v ref)) = references h \<and>
            crossref (snd (push_if_lower h v ref)) = crossref h \<and>
            heap_inv (snd (push_if_lower h v ref))) \<and>
         (rd (crossref h) ref \<noteq> - 1 \<and> \<not> v < leaf h (rd (crossref h) ref) \<longrightarrow>
            push_if_lower h v ref = (Inr False, h\<lparr>pushed := 0\<rparr>)) \<and>
         (rd (crossref h) ref = - 1 \<longrightarrow>
            fst (push_if_lower h v ref) = Inr True \<and>
            snd (FastUpdateBinaryHeap_push (h\<lparr>pushed := 1\<rparr>) v ref) = snd (push_if_lower h v ref) \<and>
            count (snd (push_if_lower h v ref)) = count h + 1 \<and>
            rd (crossref (snd (push_if_lower h v ref))) ref = count h \<and>
            leaf (snd (push_if_lower h v ref)) (count h) = v \<and>
            (\<forall>q. 0 \<le> q \<and> q < count h \<longrightarrow> leaf (snd (push_if_lower h v ref)) q = leaf h q) \<and>
            heap_inv (snd (push_if_lower h v ref)))"
proof -
  define p where "p = rd (crossref h) ref"
  define h1 where "h1 = h\<lparr>pushed := 1\<rparr>"
  have inv1: "heap_inv h1" using assms(1) heap_inv_cong [of h1 h] by (simp add: h1_def)
  have cinv1: "crossref_inv h1" using assms(2) crossref_inv_cong [of h1 h] by (simp add: h1_def)
  have r1: "0 \<le> ref" "ref \<le> max_reference h1" using assms(3,4) by (simp_all add: h1_def)
  have f1: "crossref h1 = crossref h" "count h1 = count h" "levels h1 = levels h"
    "vals h1 = vals h" "references h1 = references h" "pushed h1 = 1"
    by (simp_all add: h1_def)
  have l1: "leaf h1 q = leaf h q" for q by (simp add: leaf_def f1)
  have lower: "fst (push_if_lower h v ref) = Inr True \<and>
            snd (FastUpdateBinaryHeap_push h1 v ref) = snd (push_if_lower h v ref) \<and>
            leaf (snd (push_if_lower h v ref)) p = v \<and>
            (\<forall>q. 0 \<le> q \<and> q \<noteq> p \<longrightarrow> leaf (snd (push_if_lower h v ref)) q = leaf h q) \<and>
            count (snd (push_if_lower h v ref)) = count h \<and>
            references (snd (push_if_lower h v ref)) = references h \<and>
            crossref (snd (push_if_lower h v ref)) = crossref h \<and>
            heap_inv (snd (push_if_lower h v ref))"
    if pr: "p \<noteq> - 1" and lt: "v < leaf h p"
  proof -
    define h' where "h' = update_one (h1\<lparr>vals := wr (vals h1) (2 ^ levels h1 - 1 + p) v\<rparr>)
        (2 ^ levels h1 - 1 + p)"
    have pr1: "rd (crossref h1) ref \<noteq> - 1" using pr by (simp add: f1 p_def)
    note pp = present_position [OF cinv1 r1 pr1, unfolded f1(1), folded p_def]
    have pil: "push_if_lower_fast h v ref = (p, h')"
      using push_if_lower_fast_cases(2) [OF assms(3,4), of v] pr lt
      by (simp add: p_def h'_def h1_def)
    have pf: "FastUpdateBinaryHeap_push_fast h1 v ref = (p, h')"
      using FastUpdateBinaryHeap_push_fast_cases(2) [OF r1 pr1, of v]
      by (simp add: f1 p_def h'_def)
    note s = set_leaf_spec [OF inv1 pp(1,2), where v = v, folded h'_def]
    note mf = more_fields [OF s(7)]
    have e1: "push_if_lower h v ref = (Inr True, h')"
      using pr mf(3) by (simp add: push_if_lower_def pil f1)
    have e2: "snd (FastUpdateBinaryHeap_push h1 v ref) = h'"
      by (simp add: snd_FastUpdateBinaryHeap_push pf)
    have lp: "leaf h' p = v" using s(2) [OF pp(1)] by simp
    have lq: "\<forall>q. 0 \<le> q \<and> q \<noteq> p \<longrightarrow> leaf h' q = leaf h q" using s(2) by (simp add: l1)
    show ?thesis
      unfolding e1 e2 using lp lq s(1,3,6) mf(1) by (simp add: f1)
  qed
  have keep: "push_if_lower h v ref = (Inr False, h\<lparr>pushed := 0\<rparr>)"
    if pr: "p \<noteq> - 1" and lt: "\<not> v < leaf h p"
    using push_if_lower_fast_cases(3) [OF assms(3,4), of v] pr lt
    by (simp add: push_if_lower_def p_def)
  have fresh: "fst (push_if_lower h v ref) = Inr True \<and>
            snd (FastUpdateBinaryHeap_push h1 v ref) = snd (push_if_lower h v ref) \<and>
            count (snd (push_if_lower h v ref)) = count h + 1 \<and>
            rd (crossref (snd (push_if_lower h v ref))) ref = count h \<and>
            leaf (snd (push_if_lower h v ref)) (count h) = v \<and>
            (\<forall>q. 0 \<le> q \<and> q < count h \<longrightarrow> leaf (snd (push_if_lower h v ref)) q = leaf h q) \<and>
            heap_inv (snd (push_if_lower h v ref))"
    if ab: "p = - 1"
  proof -
    define g where "g = snd (BinaryHeap_push_fast h1 v ref)"
    define h' where "h' = g\<lparr>crossref := wr (crossref g) ref (fst (BinaryHeap_push_fast h1 v ref))\<rparr>"
    have ab1: "rd (crossref h1) ref = - 1" using ab by (simp add: f1 p_def)
    have pil: "push_if_lower_fast h v ref = (fst (BinaryHeap_push_fast h1 v ref), h')"
      using push_if_lower_fast_cases(4) [OF assms(3,4), of v] ab
      by (simp add: p_def h'_def g_def h1_def)
    have pf: "FastUpdateBinaryHeap_push_fast h1 v ref = (fst (BinaryHeap_push_fast h1 v ref), h')"
      using FastUpdateBinaryHeap_push_fast_cases(3) [OF r1 ab1, of v]
      by (simp add: h'_def g_def)
    note ps = push_fast_spec [OF inv1, where v = v and ref = ref, folded g_def]
    note mf = more_fields [OF ps(5)]
    note a = append_spec [OF inv1 cinv1 r1, where v = v, folded g_def, folded h'_def]
    have c0: "0 \<le> count h" using assms(1) unfolding heap_inv_alt by blast
    have ne: "fst (BinaryHeap_push_fast h1 v ref) \<noteq> - 1" using ps(1) c0 by (simp add: f1)
    have pu: "pushed h' = 1" using mf(3) by (simp add: h'_def f1)
    have e1: "push_if_lower h v ref = (Inr True, h')"
      using ne pu by (simp add: push_if_lower_def pil)
    have e2: "snd (FastUpdateBinaryHeap_push h1 v ref) = h'"
      by (simp add: snd_FastUpdateBinaryHeap_push pf)
    have cl: "count h' \<le> 2 ^ levels h'" using a(1) unfolding heap_inv_alt by blast
    have lf: "leaf h' q = (if q = count h then v else leaf h q)" if "0 \<le> q" "q \<le> count h" for q
    proof -
      have "q < 2 ^ levels h'" using that(2) cl a(4) by (simp add: f1)
      from a(6) [OF that(1) this] show ?thesis using that(2) by (simp add: f1 l1)
    qed
    have lc: "leaf h' (count h) = v" using lf [of "count h"] c0 by simp
    have lq: "\<forall>q. 0 \<le> q \<and> q < count h \<longrightarrow> leaf h' q = leaf h q" using lf by simp
    show ?thesis
      unfolding e1 e2 using a(1,4,5) lc lq by (simp add: f1)
  qed
  from lower keep fresh show ?thesis unfolding p_def h1_def by blast
qed

theorem push_if_lower_spec_witness:
  "heap_inv example_indexed \<and> crossref_inv example_indexed \<and>
   max_reference example_indexed = 2 \<and> count example_indexed = 1 \<and>
   rd (crossref example_indexed) 1 = 0 \<and> leaf example_indexed 0 = Fin 10 \<and>
   push_if_lower example_indexed (Fin 12) 1 = (Inr False, example_indexed\<lparr>pushed := 0\<rparr>) \<and>
   fst (push_if_lower example_indexed (Fin 3) 1) = Inr True \<and>
   leaf (snd (push_if_lower example_indexed (Fin 3) 1)) 0 = Fin 3 \<and>
   count (snd (push_if_lower example_indexed (Fin 3) 1)) = 1 \<and>
   rd (crossref example_indexed) 2 = - 1 \<and>
   fst (push_if_lower example_indexed (Fin 7) 2) = Inr True \<and>
   count (snd (push_if_lower example_indexed (Fin 7) 2)) = 2 \<and>
   leaf (snd (push_if_lower example_indexed (Fin 7) 2)) 1 = Fin 7"
proof -
  have i: "heap_inv example_indexed" "crossref_inv example_indexed" by code_simp+
  have m: "max_reference example_indexed = 2" by code_simp
  have c: "rd (crossref example_indexed) 1 = 0" "count example_indexed = 1"
    "rd (crossref example_indexed) 2 = - 1" "leaf example_indexed 0 = Fin 10"
    by code_simp+
  have o: "\<not> Fin 12 < Fin 10" "Fin 3 < Fin 10" by code_simp+
  have a1: "(0::int) \<le> 1" "(1::int) \<le> max_reference example_indexed" by (simp_all add: m)
  have a2: "(0::int) \<le> 2" "(2::int) \<le> max_reference example_indexed" by (simp_all add: m)
  show ?thesis
    using push_if_lower_spec [OF i a1, of "Fin 12"] push_if_lower_spec [OF i a1, of "Fin 3"]
      push_if_lower_spec [OF i a2, of "Fin 7"] i m c o
    by simp
qed

text \<open>
  Claim C10 (\<open>pop\<close> when the minimum is the sentinel). On a non-empty heap satisfying the
  invariant whose occupied leaves all hold \<open>+inf\<close>, \<open>pop\<close> raises nothing and returns \<open>+inf\<close>
  with the reference stored at the last leaf; \<open>_remove\<close> is not called, so the count, the
  values and the references are unchanged (only \<open>_popped_ref\<close> is assigned).
\<close>

theorem pop_of_sentinel:
  assumes "heap_inv h" and "count h \<noteq> 0"
    and "\<forall>p. 0 \<le> p \<and> p < count h \<longrightarrow> leaf h p = PInf"
  shows "pop rm h =
           (Inr (PInf, rd (references h) (2 ^ levels h - 1)),
            h\<lparr>popped_ref := rd (references h) (2 ^ levels h - 1)\<rparr>)"
  using assms(2) all_sentinel_min_leaf [OF assms(1,3)]
  by (simp add: pop_def pop_fast_eq)

theorem pop_of_sentinel_witness:
  "heap_inv example_sentinel \<and> count example_sentinel = 1 \<and>
   leaf example_sentinel 0 = PInf \<and>
   fst (BinaryHeap_pop example_sentinel) = Inr (PInf, 0) \<and>
   count (snd (BinaryHeap_pop example_sentinel)) = 1 \<and>
   vals (snd (BinaryHeap_pop example_sentinel)) = vals example_sentinel \<and>
   references (snd (BinaryHeap_pop example_sentinel)) = references example_sentinel"
proof -
  have i: "heap_inv example_sentinel" by code_simp
  have c: "count example_sentinel = 1" by code_simp
  have l: "leaf example_sentinel 0 = PInf" by code_simp
  have r: "rd (references example_sentinel) (2 ^ levels example_sentinel - 1) = 0" by code_simp
  have a: "\<forall>p. 0 \<le> p \<and> p < count example_sentinel \<longrightarrow> leaf example_sentinel p = PInf"
  proof (intro allI impI)
    fix p :: int assume "0 \<le> p \<and> p < count example_sentinel"
    then have "p = 0" using c by simp
    then show "leaf example_sentinel p = PInf" using l by simp
  qed
  have n: "count example_sentinel \<noteq> 0" using c by simp
  show ?thesis
    using pop_of_sentinel [OF i n a, of BinaryHeap_remove] i c l r
    by (simp add: BinaryHeap_pop_def)
qed

subsection \<open>Claims that hold in an amended form\<close>

text \<open>
  Claim C1 (the values of successive \<open>pop\<close> calls are non-decreasing), amended: on a heap
  of either class on which the invariants hold (every state of a heap built with an
  initial capacity of at least \<open>2\<close>), for every history of calls in which no push carries a
  value below the value returned by the latest \<open>pop\<close> before it, each successful \<open>pop\<close>
  returns a value that is at least every value returned by an earlier \<open>pop\<close> of the
  history.
\<close>

theorem pops_in_order:
  assumes "heap_inv h" and "BinaryHeap_pushes_above h NInf cs"
    and "heap_inv g" and "crossref_inv g" and "FastUpdateBinaryHeap_pushes_above g NInf fcs"
  shows "sorted (fst (BinaryHeap_run h cs)) \<and> sorted (fst (FastUpdateBinaryHeap_run g fcs))"
proof
  have n: "to_float NInf = NInf" by simp
  show "sorted (fst (BinaryHeap_run h cs))"
    using BinaryHeap_order [OF assms(1) float_bound_NInf n assms(2)] by blast
  have "fu_inv g" using assms(3,4) by (simp add: fu_inv_def)
  from FastUpdateBinaryHeap_order [OF this float_bound_NInf n assms(5)]
  show "sorted (fst (FastUpdateBinaryHeap_run g fcs))" by blast
qed

theorem pops_in_order_witness:
  "heap_inv example_new \<and>
   BinaryHeap_pushes_above example_new NInf
     [Push (Fin 5) 0, Push (Fin 9) 1, Pop, Push (Fin 7) 2, Pop, Push (Fin 8) 3, Pop, Pop] \<and>
   fst (BinaryHeap_run example_new
     [Push (Fin 5) 0, Push (Fin 9) 1, Pop, Push (Fin 7) 2, Pop, Push (Fin 8) 3, Pop, Pop])
     = [Fin 5, Fin 7, Fin 8, Fin 9] \<and>
   sorted (fst (BinaryHeap_run example_new
     [Push (Fin 5) 0, Push (Fin 9) 1, Pop, Push (Fin 7) 2, Pop, Push (Fin 8) 3, Pop, Pop])) \<and>
   heap_inv example_new_indexed \<and> crossref_inv example_new_indexed \<and>
   FastUpdateBinaryHeap_pushes_above example_new_indexed NInf
     [FPush (Fin 5) 0, FPush (Fin 9) 1, FPop, FPush (Fin 7) 0, FPushIfLower (Fin 6) 1, FPop, FPop] \<and>
   fst (FastUpdateBinaryHeap_run example_new_indexed
     [FPush (Fin 5) 0, FPush (Fin 9) 1, FPop, FPush (Fin 7) 0, FPushIfLower (Fin 6) 1, FPop, FPop])
     = [Fin 5, Fin 6, Fin 7] \<and>
   sorted (fst (FastUpdateBinaryHeap_run example_new_indexed
     [FPush (Fin 5) 0, FPush (Fin 9) 1, FPop, FPush (Fin 7) 0, FPushIfLower (Fin 6) 1, FPop, FPop]))"
proof -
  have i: "heap_inv example_new" by code_simp
  have a: "BinaryHeap_pushes_above example_new NInf
     [Push (Fin 5) 0, Push (Fin 9) 1, Pop, Push (Fin 7) 2, Pop, Push (Fin 8) 3, Pop, Pop]"
    by code_simp
  have r: "fst (BinaryHeap_run example_new
     [Push (Fin 5) 0, Push (Fin 9) 1, Pop, Push (Fin 7) 2, Pop, Push (Fin 8) 3, Pop, Pop])
     = [Fin 5, Fin 7, Fin 8, Fin 9]"
    by code_simp
  have j: "heap_inv example_new_indexed" "crossref_inv example_new_indexed" by code_simp+
  have b: "FastUpdateBinaryHeap_pushes_above example_new_indexed NInf
     [FPush (Fin 5) 0, FPush (Fin 9) 1, FPop, FPush (Fin 7) 0, FPushIfLower (Fin 6) 1, FPop, FPop]"
    by code_simp
  have s: "fst (FastUpdateBinaryHeap_run example_new_indexed
     [FPush (Fin 5) 0, FPush (Fin 9) 1, FPop, FPush (Fin 7) 0, FPushIfLower (Fin 6) 1, FPop, FPop])
     = [Fin 5, Fin 6, Fin 7]"
    by code_simp
  from pops_in_order [OF i a j b] i a r j b s show ?thesis by blast
qed

text \<open>
  As stated, for every sequence of pushes and pops, claim C1 fails for any min heap: after
  \<open>push(5)\<close>, \<open>pop()\<close>, \<open>push(3)\<close>, \<open>pop()\<close> the second \<open>pop\<close> returns \<open>3\<close>, less than the \<open>5\<close>
  returned before. The push of \<open>3\<close> goes below the value of the latest \<open>pop\<close>.
\<close>

theorem pop_after_later_push_is_smaller:
  "fst (BinaryHeap_run example_new [Push (Fin 5) 0, Pop, Push (Fin 3) 1, Pop])
     = [Fin 5, Fin 3] \<and>
   fst (FastUpdateBinaryHeap_run example_new_indexed
          [FPush (Fin 5) 0, FPop, FPush (Fin 3) 1, FPop])
     = [Fin 5, Fin 3] \<and>
   Fin 3 < Fin 5 \<and> \<not> sorted [Fin 5, Fin 3] \<and>
   \<not> BinaryHeap_pushes_above example_new NInf [Push (Fin 5) 0, Pop, Push (Fin 3) 1, Pop]"
  by code_simp

text \<open>
  Claim C3 (the search of \<open>pop\<close> and its choice between equal values), amended: where the
  two slots compared hold equal values the search goes on below the second (right) one,
  since the first is taken only when strictly less; so on a non-empty heap on which the
  invariant holds (every state of a heap built with an initial capacity of at least \<open>2\<close>)
  \<open>pop\<close> selects the last (rightmost) of the leaves that hold the minimum: the reference
  it returns is the one stored with that leaf, and that leaf is the one it removes when it
  removes one. The theorem also gives the value returned, which is the value of that leaf
  as a \<open>float\<close>, and the heap after the call, where nothing is removed when that \<open>float\<close>
  is \<open>inf\<close>.
\<close>

theorem pop_takes_rightmost_minimum:
  assumes "removes rm" and "heap_inv h" and "count h \<noteq> 0"
  shows "(\<forall>i n. rd (vals h) i = rd (vals h) (i + 1) \<longrightarrow>
            descend (vals h) i (Suc n) = descend (vals h) ((i + 1) * 2 + 1) n) \<and>
         0 \<le> min_leaf h \<and> min_leaf h < 2 ^ levels h \<and>
         (\<forall>q. 0 \<le> q \<and> q < 2 ^ levels h \<longrightarrow> leaf h (min_leaf h) \<le> leaf h q) \<and>
         (\<forall>q. 0 \<le> q \<and> q < 2 ^ levels h \<and> leaf h q = leaf h (min_leaf h) \<longrightarrow> q \<le> min_leaf h) \<and>
         fst (pop rm h) = Inr (to_float (leaf h (min_leaf h)), rd (references h) (min_leaf h)) \<and>
         snd (pop rm h) =
           (if to_float (leaf h (min_leaf h)) \<noteq> PInf
            then rm (h\<lparr>popped_ref := rd (references h) (min_leaf h)\<rparr>) (2 ^ levels h - 1 + min_leaf h)
            else h\<lparr>popped_ref := rd (references h) (min_leaf h)\<rparr>)"
proof -
  note ml = min_leaf_spec [OF assms(2)]
  have tie: "\<forall>i n. rd (vals h) i = rd (vals h) (i + 1) \<longrightarrow>
      descend (vals h) i (Suc n) = descend (vals h) ((i + 1) * 2 + 1) n"
    by simp
  have res: "fst (pop rm h) = Inr (to_float (leaf h (min_leaf h)), rd (references h) (min_leaf h))"
    by (rule pop_spec(2) [OF assms])
  have post: "snd (pop rm h) =
           (if to_float (leaf h (min_leaf h)) \<noteq> PInf
            then rm (h\<lparr>popped_ref := rd (references h) (min_leaf h)\<rparr>) (2 ^ levels h - 1 + min_leaf h)
            else h\<lparr>popped_ref := rd (references h) (min_leaf h)\<rparr>)"
    using assms(3) by (simp add: pop_def pop_fast_eq)
  have least: "\<forall>q. 0 \<le> q \<and> q < 2 ^ levels h \<longrightarrow> leaf h (min_leaf h) \<le> leaf h q"
    using ml(4) by blast
  have last: "\<forall>q. 0 \<le> q \<and> q < 2 ^ levels h \<and> leaf h q = leaf h (min_leaf h) \<longrightarrow> q \<le> min_leaf h"
    using ml(5) by blast
  from tie res post ml(1,2) least last show ?thesis by blast
qed

theorem pop_takes_rightmost_minimum_witness:
  "removes (BinaryHeap_remove :: BinaryHeap \<Rightarrow> int \<Rightarrow> BinaryHeap) \<and> heap_inv example_ties \<and>
   count example_ties = 2 \<and>
   leaf example_ties 0 = Fin 5 \<and> leaf example_ties 1 = Fin 5 \<and>
   rd (references example_ties) 0 = 0 \<and> rd (references example_ties) 1 = 1 \<and>
   min_leaf example_ties = 1 \<and>
   fst (BinaryHeap_pop example_ties) = Inr (Fin 5, 1) \<and>
   count (snd (BinaryHeap_pop example_ties)) = 1 \<and>
   leaf (snd (BinaryHeap_pop example_ties)) 0 = Fin 5 \<and>
   rd (references (snd (BinaryHeap_pop example_ties))) 0 = 0"
proof -
  have i: "heap_inv example_ties" by code_simp
  have c: "count example_ties = 2" "leaf example_ties 0 = Fin 5" "leaf example_ties 1 = Fin 5"
    "rd (references example_ties) 0 = 0" "rd (references example_ties) 1 = 1"
    "min_leaf example_ties = 1" "to_float (Fin 5) = Fin 5"
    by code_simp+
  have p: "count (snd (BinaryHeap_pop example_ties)) = 1"
    "leaf (snd (BinaryHeap_pop example_ties)) 0 = Fin 5"
    "rd (references (snd (BinaryHeap_pop example_ties))) 0 = 0"
    by code_simp+
  have n: "count example_ties \<noteq> 0" using c by simp
  have f: "fst (BinaryHeap_pop example_ties) = Inr (Fin 5, 1)"
    using pop_takes_rightmost_minimum [OF removes_BinaryHeap_remove i n] c
    by (simp add: BinaryHeap_pop_def)
  from f i c p removes_BinaryHeap_remove [where ?'a = unit] show ?thesis by blast
qed

text \<open>
  As stated, with ties broken toward the first child, claim C3 fails: with \<open>(5, 0)\<close> at leaf
  \<open>0\<close> and \<open>(5, 1)\<close> at leaf \<open>1\<close>, \<open>pop\<close> returns \<open>(5, 1)\<close>.
\<close>

theorem pop_of_ties_takes_second:
  "leaf example_ties 0 = Fin 5 \<and> rd (references example_ties) 0 = 0 \<and>
   leaf example_ties 1 = Fin 5 \<and> rd (references example_ties) 1 = 1 \<and>
   fst (BinaryHeap_pop example_ties) = Inr (Fin 5, 1) \<and>
   fst (BinaryHeap_pop example_ties) \<noteq> Inr (Fin 5, 0)"
  by code_simp

text \<open>
  Claim C5 (\<open>pop\<close> and \<open>min_val\<close> on an empty heap), amended: with \<open>count == 0\<close>, \<open>pop\<close>
  raises \<open>IndexError('pop from an empty heap')\<close> and leaves the heap as it was; \<open>min_val\<close> has
  no test of the count and, on a heap satisfying the invariant, returns \<open>+inf\<close>.
\<close>

theorem empty_heap_pop_and_min_val:
  "count h = 0 \<Longrightarrow>
     pop rm h = (Inl (IndexError ''pop from an empty heap''), h) \<and>
     (heap_inv h \<longrightarrow> min_val h = Inr PInf)"
proof
  assume c: "count h = 0"
  then show "pop rm h = (Inl (IndexError ''pop from an empty heap''), h)" by (simp add: pop_def)
  show "heap_inv h \<longrightarrow> min_val h = Inr PInf"
  proof
    assume inv: "heap_inv h"
    have "\<forall>p. 0 \<le> p \<and> p < count h \<longrightarrow> leaf h p = PInf" using c by auto
    then have "leaf h (min_leaf h) = PInf" by (rule all_sentinel_min_leaf(1) [OF inv])
    then show "min_val h = Inr PInf" using min_leaf_spec(3) [OF inv] by (simp add: min_val_eq)
  qed
qed

theorem empty_heap_pop_and_min_val_witness:
  "count (BinaryHeap_new 2 (\<lambda>_. PInf) (\<lambda>_. 0)) = 0 \<and>
   heap_inv (BinaryHeap_new 2 (\<lambda>_. PInf) (\<lambda>_. 0)) \<and>
   fst (pop BinaryHeap_remove (BinaryHeap_new 2 (\<lambda>_. PInf) (\<lambda>_. 0)))
     = Inl (IndexError ''pop from an empty heap'') \<and>
   min_val (BinaryHeap_new 2 (\<lambda>_. PInf) (\<lambda>_. 0)) = Inr PInf"
proof -
  have c: "count (BinaryHeap_new 2 (\<lambda>_. PInf) (\<lambda>_. 0)) = 0" by code_simp
  have i: "heap_inv (BinaryHeap_new 2 (\<lambda>_. PInf) (\<lambda>_. 0))" by code_simp
  show ?thesis
    using empty_heap_pop_and_min_val [OF c, of BinaryHeap_remove] c i by simp
qed

text \<open>
  As stated, claim C5 fails for \<open>min_val\<close>: on a new heap it returns \<open>+inf\<close> and raises
  nothing.
\<close>

theorem min_val_on_empty_heap:
  "count example_new = 0 \<and>
   min_val example_new = Inr PInf \<and>
   min_val example_new \<noteq> Inl (IndexError ''pop from an empty heap'')"
  by code_simp

subsection \<open>Claims settled by running the code\<close>

text \<open>
  Claim C4 (\<open>reset\<close> returns the heap to the empty state, \<open>count == 0\<close>). Both \<open>reset\<close>
  methods only overwrite buffers and never assign \<open>count\<close>: after one \<open>push\<close> and a
  \<open>reset\<close> the count of either class is still one, although the docstring of \<open>reset\<close>
  promises the "default, empty state".
\<close>

theorem reset_keeps_count:
  "count (BinaryHeap_reset (snd (BinaryHeap_push
      (BinaryHeap_new 2 (\<lambda>_. PInf) (\<lambda>_. 0)) (Fin 1) 0))) = 1 \<and>
   count (FastUpdateBinaryHeap_reset (snd (FastUpdateBinaryHeap_push
      (FastUpdateBinaryHeap_new 2 None (\<lambda>_. PInf) (\<lambda>_. 0) (\<lambda>_. 0)) (Fin 1) 0))) = 1"
  by code_simp

text \<open>
  Claim C9 (every public operation preserves the cross reference consistency I4). After
  \<open>push(1, 0)\<close> and \<open>reset()\<close> on an indexed heap, leaf \<open>0\<close> still counts as occupied and
  still holds the reference \<open>0\<close>, while the table says that reference \<open>0\<close> is absent.
\<close>

theorem reset_breaks_cross_references:
  "count (FastUpdateBinaryHeap_reset (snd (FastUpdateBinaryHeap_push
      (FastUpdateBinaryHeap_new 2 None (\<lambda>_. PInf) (\<lambda>_. 0) (\<lambda>_. 0)) (Fin 1) 0))) = 1 \<and>
   rd (references (FastUpdateBinaryHeap_reset (snd (FastUpdateBinaryHeap_push
      (FastUpdateBinaryHeap_new 2 None (\<lambda>_. PInf) (\<lambda>_. 0) (\<lambda>_. 0)) (Fin 1) 0)))) 0 = 0 \<and>
   rd (crossref (FastUpdateBinaryHeap_reset (snd (FastUpdateBinaryHeap_push
      (FastUpdateBinaryHeap_new 2 None (\<lambda>_. PInf) (\<lambda>_. 0) (\<lambda>_. 0)) (Fin 1) 0)))) 0 = - 1"
  by code_simp

text \<open>
  Claim C6 (\<open>push\<close>, \<open>pushIfLower\<close> and \<open>valueOf\<close> signal InvalidKey for a reference
  outside \<open>[0, max_reference]\<close>). \<open>value_of\<close> has no range check: whatever the reference,
  it indexes the table with it and its only exception is the one for an absent reference.
\<close>

theorem value_of_never_signals_out_of_range:
  "fst (value_of h r) \<noteq> Inl (ValueError ''reference outside of range [0, max_reference]'')"
  by (simp add: value_of_def value_of_fast_def Let_def split: prod.splits if_splits)

text \<open>
  Claim C7 (\<open>valueOf\<close> of a present reference returns the stored value). \<open>value_of_fast\<close> is
  declared \<open>cdef float\<close>: the stored \<open>double\<close> is converted to single precision on the way
  out. With \<open>16777217\<close> stored for reference \<open>1\<close>, \<open>value_of(1)\<close> returns \<open>16777216\<close>.
\<close>

theorem value_of_returns_a_float:
  "rd (crossref (snd (FastUpdateBinaryHeap_push example_new_indexed (Fin 16777217) 1))) 1 = 0 \<and>
   leaf (snd (FastUpdateBinaryHeap_push example_new_indexed (Fin 16777217) 1)) 0 = Fin 16777217 \<and>
   fst (value_of (snd (FastUpdateBinaryHeap_push example_new_indexed (Fin 16777217) 1)) 1)
     = Inr (Fin 16777216)"
  by code_simp

text \<open>
  Claim C8 (after \<open>push\<close> of a present reference, \<open>valueOf\<close> returns the new value). The
  push overwrites the leaf in place and the count stays \<open>1\<close>, but \<open>value_of\<close> returns the new
  value as a \<open>float\<close>: after \<open>push(16777217, 1)\<close> on the heap that holds reference \<open>1\<close>, it
  returns \<open>16777216\<close>.
\<close>

theorem value_of_after_push_differs:
  "rd (crossref example_indexed) 1 = 0 \<and> count example_indexed = 1 \<and>
   fst (FastUpdateBinaryHeap_push example_indexed (Fin 16777217) 1) = Inr () \<and>
   count (snd (FastUpdateBinaryHeap_push example_indexed (Fin 16777217) 1)) = 1 \<and>
   leaf (snd (FastUpdateBinaryHeap_push example_indexed (Fin 16777217) 1)) 0 = Fin 16777217 \<and>
   fst (value_of (snd (FastUpdateBinaryHeap_push example_indexed (Fin 16777217) 1)) 1)
     = Inr (Fin 16777216)"
  by code_simp

end
